theory Spec2Isabelle
  imports Main "HOL-Library.Word"
begin

section \<open>libjaylink: the transport abstraction layer (transport.c)\<close>

text \<open>
  A shallow embedding of the USB transport layer of libjaylink: the framing state of a
  device handle, the three functions that start an operation, the two backend primitives
  \<^verbatim>\<open>usb_recv\<close> and \<^verbatim>\<open>usb_send\<close>, and \<^verbatim>\<open>transport_write\<close> and
  \<^verbatim>\<open>transport_read\<close>.

  The C fields and length parameters are \<^verbatim>\<open>uint16_t\<close>. They are modelled as natural
  numbers: every sum and comparison of the source is evaluated after integer promotion to
  \<^verbatim>\<open>int\<close>, and every subtraction assigned back to a field is guarded by a comparison
  (or by the bound of a bulk transfer), so no operation of the modelled functions wraps.
\<close>

subsection \<open>Constants and result codes\<close>

type_synonym byte = "8 word"

definition NUM_TIMEOUTS :: nat where
  "NUM_TIMEOUTS = 2"

definition CHUNK_SIZE :: nat where
  "CHUNK_SIZE = 2048"

definition BUFFER_SIZE :: nat where
  "BUFFER_SIZE = CHUNK_SIZE"

text \<open>\<^verbatim>\<open>enum jaylink_error\<close> of libjaylink.h.\<close>

datatype jaylink_error =
    JAYLINK_OK
  | JAYLINK_ERR
  | JAYLINK_ERR_MALLOC
  | JAYLINK_ERR_ARG
  | JAYLINK_ERR_TIMEOUT

text \<open>
  The result codes of \<^verbatim>\<open>libusb_bulk_transfer\<close>. The source compares the code with
  \<^verbatim>\<open>LIBUSB_SUCCESS\<close> and \<^verbatim>\<open>LIBUSB_ERROR_TIMEOUT\<close> only; every other code takes the
  same branch.
\<close>

datatype libusb_error =
    LIBUSB_SUCCESS
  | LIBUSB_ERROR_IO
  | LIBUSB_ERROR_NO_DEVICE
  | LIBUSB_ERROR_TIMEOUT
  | LIBUSB_ERROR_OVERFLOW
  | LIBUSB_ERROR_PIPE
  | LIBUSB_ERROR_OTHER

subsection \<open>The device handle and the USB device\<close>

text \<open>
  The fields of \<^verbatim>\<open>struct jaylink_device_handle\<close> that the transport layer uses. The
  scratch buffer is one array of \<^verbatim>\<open>BUFFER_SIZE\<close> bytes, shared by writing and reading.
\<close>

record jaylink_device_handle =
  buffer :: "byte list"
  read_length :: nat
  bytes_available :: nat
  read_pos :: nat
  write_length :: nat
  write_pos :: nat

text \<open>
  The device behind \<^verbatim>\<open>libusb_bulk_transfer\<close> is a script: for each endpoint the list of
  the outcomes of the bulk transfers still to come, one entry per call. An outcome on the IN
  endpoint is the result code and the bytes the device delivers; an outcome on the OUT
  endpoint is the result code and the number of bytes the device takes. A call with no
  entry left never returns: the functions below then yield \<open>None\<close>.

  Two fields only record what happened: \<open>send_calls\<close> holds the byte block given to each
  call of \<^verbatim>\<open>usb_send\<close>, and \<open>wire_out\<close> the result code and the bytes moved by each bulk
  transfer on the OUT endpoint.
\<close>

record usb_device =
  ep_in :: "(libusb_error \<times> byte list) list"
  ep_out :: "(libusb_error \<times> nat) list"
  send_calls :: "byte list list"
  wire_out :: "(libusb_error \<times> byte list) list"

text \<open>
  \<^verbatim>\<open>libusb_bulk_transfer\<close> moves at most the number of bytes requested. On the IN endpoint
  the source always requests \<^verbatim>\<open>CHUNK_SIZE\<close> bytes.
\<close>

definition bulk_in :: "byte list \<Rightarrow> byte list" where
  "bulk_in d = take CHUNK_SIZE d"

definition bulk_out :: "nat \<Rightarrow> byte list \<Rightarrow> byte list" where
  "bulk_out k req = take k req"

text \<open>\<^verbatim>\<open>memcpy(dst + pos, src, length src)\<close> on a buffer held as a list.\<close>

definition memcpy_at :: "byte list \<Rightarrow> nat \<Rightarrow> byte list \<Rightarrow> byte list" where
  "memcpy_at dst pos src = take pos dst @ src @ drop (pos + length src) dst"

subsection \<open>Starting an operation\<close>

text \<open>
  The three start functions ignore their argument \<^verbatim>\<open>has_command\<close>, which is left out.
  Besides the return value and the handle they yield the warnings written to the log, in
  the order of the source; debug and error messages are not modelled.
\<close>

datatype log_warning =
    Write_left_in_buffer nat
  | Write_not_performed
  | Read_left_in_buffer nat
  | Read_left_on_device nat

definition warn_write :: "jaylink_device_handle \<Rightarrow> log_warning list" where
  "warn_write devh =
     (if write_pos devh \<noteq> 0 then [Write_left_in_buffer (write_pos devh)] else []) @
     (if write_length devh \<noteq> 0 then [Write_not_performed] else [])"

definition warn_read :: "jaylink_device_handle \<Rightarrow> log_warning list" where
  "warn_read devh =
     (if bytes_available devh \<noteq> 0 then [Read_left_in_buffer (bytes_available devh)] else []) @
     (if read_length devh \<noteq> 0 then [Read_left_on_device (read_length devh)] else [])"

definition transport_start_write ::
  "jaylink_device_handle \<Rightarrow> nat \<Rightarrow> jaylink_error \<times> jaylink_device_handle \<times> log_warning list"
where
  "transport_start_write devh len =
     (if len = 0 then (JAYLINK_ERR_ARG, devh, [])
      else (JAYLINK_OK, devh\<lparr>write_length := len, write_pos := 0\<rparr>, warn_write devh))"

definition transport_start_read ::
  "jaylink_device_handle \<Rightarrow> nat \<Rightarrow> jaylink_error \<times> jaylink_device_handle \<times> log_warning list"
where
  "transport_start_read devh len =
     (if len = 0 then (JAYLINK_ERR_ARG, devh, [])
      else (JAYLINK_OK, devh\<lparr>read_length := len, bytes_available := 0, read_pos := 0\<rparr>,
            warn_read devh))"

definition transport_start_write_read ::
  "jaylink_device_handle \<Rightarrow> nat \<Rightarrow> nat \<Rightarrow>
     jaylink_error \<times> jaylink_device_handle \<times> log_warning list"
where
  "transport_start_write_read devh wlen rlen =
     (if rlen = 0 \<or> wlen = 0 then (JAYLINK_ERR_ARG, devh, [])
      else (JAYLINK_OK,
            devh\<lparr>write_length := wlen, write_pos := 0,
                 read_length := rlen, bytes_available := 0, read_pos := 0\<rparr>,
            warn_write devh @ warn_read devh))"

subsection \<open>The backend primitives\<close>

text \<open>
  The loop of \<^verbatim>\<open>usb_recv\<close>. \<open>transferred\<close> holds the bytes that the last bulk transfer
  put at the start of the destination (its length is the C variable of that name). A
  transfer that succeeds with no byte neither ends the loop nor uses up a try.
\<close>

definition usb_recv_done ::
  "byte list \<Rightarrow> (libusb_error \<times> byte list) list \<Rightarrow>
     (jaylink_error \<times> byte list \<times> (libusb_error \<times> byte list) list) option"
where
  "usb_recv_done transferred rs =
     (if transferred \<noteq> [] then Some (JAYLINK_OK, transferred, rs)
      else Some (JAYLINK_ERR_TIMEOUT, [], rs))"

fun usb_recv_loop ::
  "nat \<Rightarrow> byte list \<Rightarrow> (libusb_error \<times> byte list) list \<Rightarrow>
     (jaylink_error \<times> byte list \<times> (libusb_error \<times> byte list) list) option"
where
  "usb_recv_loop tries transferred [] =
     (if tries \<noteq> 0 \<and> transferred = [] then None else usb_recv_done transferred [])"
| "usb_recv_loop tries transferred ((ret, d) # rs) =
     (if tries \<noteq> 0 \<and> transferred = [] then
        (if ret = LIBUSB_ERROR_TIMEOUT then usb_recv_loop (tries - 1) (bulk_in d) rs
         else if ret \<noteq> LIBUSB_SUCCESS then Some (JAYLINK_ERR, bulk_in d, rs)
         else usb_recv_loop tries (bulk_in d) rs)
      else usb_recv_done transferred ((ret, d) # rs))"

definition usb_recv ::
  "usb_device \<Rightarrow> (jaylink_error \<times> byte list \<times> usb_device) option"
where
  "usb_recv usb =
     (case usb_recv_loop NUM_TIMEOUTS [] (ep_in usb) of
        None \<Rightarrow> None
      | Some (ret, received, rs) \<Rightarrow> Some (ret, received, usb\<lparr>ep_in := rs\<rparr>))"

text \<open>
  The loop of \<^verbatim>\<open>usb_send\<close>. \<open>buf\<close> holds the bytes not sent yet (the C pointer
  \<^verbatim>\<open>buffer\<close> and \<^verbatim>\<open>length\<close>). The result carries the bulk transfers made.
\<close>

definition usb_send_done ::
  "byte list \<Rightarrow> (libusb_error \<times> nat) list \<Rightarrow>
     (jaylink_error \<times> (libusb_error \<times> byte list) list \<times> (libusb_error \<times> nat) list) option"
where
  "usb_send_done buf rs =
     (if buf = [] then Some (JAYLINK_OK, [], rs) else Some (JAYLINK_ERR_TIMEOUT, [], rs))"

definition sent_first ::
  "libusb_error \<times> byte list \<Rightarrow>
     (jaylink_error \<times> (libusb_error \<times> byte list) list \<times> (libusb_error \<times> nat) list) option \<Rightarrow>
     (jaylink_error \<times> (libusb_error \<times> byte list) list \<times> (libusb_error \<times> nat) list) option"
where
  "sent_first x res =
     (case res of None \<Rightarrow> None | Some (ret, wire, rs) \<Rightarrow> Some (ret, x # wire, rs))"

fun usb_send_loop ::
  "nat \<Rightarrow> byte list \<Rightarrow> (libusb_error \<times> nat) list \<Rightarrow>
     (jaylink_error \<times> (libusb_error \<times> byte list) list \<times> (libusb_error \<times> nat) list) option"
where
  "usb_send_loop tries buf [] =
     (if tries \<noteq> 0 \<and> buf \<noteq> [] then None else usb_send_done buf [])"
| "usb_send_loop tries buf ((ret, k) # rs) =
     (if tries \<noteq> 0 \<and> buf \<noteq> [] then
        (let transferred = bulk_out k (take (min CHUNK_SIZE (length buf)) buf) in
         if ret = LIBUSB_SUCCESS then
           sent_first (ret, transferred)
             (usb_send_loop NUM_TIMEOUTS (drop (length transferred) buf) rs)
         else if ret = LIBUSB_ERROR_TIMEOUT then
           sent_first (ret, transferred)
             (usb_send_loop (tries - 1) (drop (length transferred) buf) rs)
         else Some (JAYLINK_ERR, [(ret, transferred)], rs))
      else usb_send_done buf ((ret, k) # rs))"

definition usb_send ::
  "usb_device \<Rightarrow> byte list \<Rightarrow> (jaylink_error \<times> usb_device) option"
where
  "usb_send usb buf =
     (case usb_send_loop NUM_TIMEOUTS buf (ep_out usb) of
        None \<Rightarrow> None
      | Some (ret, wire, rs) \<Rightarrow>
          Some (ret, usb\<lparr>ep_out := rs, send_calls := send_calls usb @ [buf],
                         wire_out := wire_out usb @ wire\<rparr>))"

subsection \<open>Writing\<close>

text \<open>
  \<^verbatim>\<open>transport_write\<close> with the caller's bytes \<open>buf\<close>; the C argument \<^verbatim>\<open>length\<close>
  is the length of \<open>buf\<close>. The number of chunks is at most 32 and fits the
  \<^verbatim>\<open>uint8_t\<close> of the source, and \<^verbatim>\<open>num_chunks * CHUNK_SIZE\<close> is never below
  \<open>write_pos\<close>, so the subtraction for \<^verbatim>\<open>fill_bytes\<close> is exact.
\<close>

definition transport_write ::
  "jaylink_device_handle \<Rightarrow> usb_device \<Rightarrow> byte list \<Rightarrow>
     (jaylink_error \<times> jaylink_device_handle \<times> usb_device) option"
where
  "transport_write devh usb buf =
     (let len = length buf in
      if len > write_length devh then Some (JAYLINK_ERR_ARG, devh, usb)
      else if len < write_length devh then
        (if write_pos devh + len > BUFFER_SIZE then Some (JAYLINK_ERR_ARG, devh, usb)
         else Some (JAYLINK_OK,
                    devh\<lparr>buffer := memcpy_at (buffer devh) (write_pos devh) buf,
                         write_length := write_length devh - len,
                         write_pos := write_pos devh + len\<rparr>,
                    usb))
      else
        (let devh1 = devh\<lparr>write_length := 0\<rparr> in
         if write_pos devh1 = 0 then
           (case usb_send usb buf of
              None \<Rightarrow> None
            | Some (ret, usb1) \<Rightarrow> Some (ret, devh1, usb1))
         else
           (let num_chunks = write_pos devh1 div CHUNK_SIZE +
                              (if write_pos devh1 mod CHUNK_SIZE \<noteq> 0 then 1 else 0);
                fill_bytes = num_chunks * CHUNK_SIZE - write_pos devh1;
                tmp = min len fill_bytes;
                devh2 = (if tmp \<noteq> 0
                         then devh1\<lparr>buffer :=
                                memcpy_at (buffer devh1) (write_pos devh1) (take tmp buf)\<rparr>
                         else devh1);
                rest = drop tmp buf
            in case usb_send usb (take (write_pos devh2 + tmp) (buffer devh2)) of
                 None \<Rightarrow> None
               | Some (ret, usb1) \<Rightarrow>
                   (let devh3 = devh2\<lparr>write_pos := 0\<rparr> in
                    if ret \<noteq> JAYLINK_OK then Some (ret, devh3, usb1)
                    else if rest = [] then Some (JAYLINK_OK, devh3, usb1)
                    else (case usb_send usb1 rest of
                            None \<Rightarrow> None
                          | Some (ret2, usb2) \<Rightarrow> Some (ret2, devh3, usb2))))))"

subsection \<open>Reading\<close>

text \<open>
  The \<^verbatim>\<open>while (length)\<close> loop of \<^verbatim>\<open>transport_read\<close>. \<open>out\<close> holds the bytes
  written to the caller's buffer so far, in order, and \<open>len\<close> the number still requested.
  \<^verbatim>\<open>usb_recv\<close> receives into the scratch buffer when fewer than \<^verbatim>\<open>CHUNK_SIZE\<close>
  bytes are requested, and into the caller's buffer otherwise.
\<close>

function read_loop ::
  "jaylink_device_handle \<Rightarrow> usb_device \<Rightarrow> byte list \<Rightarrow> nat \<Rightarrow>
     (jaylink_error \<times> byte list \<times> jaylink_device_handle \<times> usb_device) option"
where
  "read_loop devh usb out len =
     (if len = 0 then Some (JAYLINK_OK, out, devh, usb)
      else
        (case usb_recv usb of
           None \<Rightarrow> None
         | Some (ret, received, usb1) \<Rightarrow>
             (let devh1 = (if len < CHUNK_SIZE
                           then devh\<lparr>buffer := memcpy_at (buffer devh) 0 received\<rparr>
                           else devh);
                  out1 = (if len < CHUNK_SIZE then out else out @ received);
                  bytes_received = length received
              in if ret \<noteq> JAYLINK_OK then Some (ret, out1, devh1, usb1)
                 else if bytes_received > read_length devh1
                 then Some (JAYLINK_ERR, out1, devh1, usb1)
                 else if len < CHUNK_SIZE then
                   (let tmp = min bytes_received len;
                        devh2 = (if bytes_received > len
                                 then devh1\<lparr>bytes_available := bytes_received - tmp,
                                            read_pos := tmp\<rparr>
                                 else devh1)
                    in read_loop (devh2\<lparr>read_length := read_length devh2 - bytes_received\<rparr>)
                         usb1 (out @ take tmp (buffer devh1)) (len - tmp))
                 else
                   read_loop (devh1\<lparr>read_length := read_length devh1 - bytes_received\<rparr>)
                     usb1 out1 (len - bytes_received))))"
  by pat_completeness auto
termination
proof -
  have ne: "usb_recv_loop tries t rs = Some (JAYLINK_OK, d, rs') \<Longrightarrow> d \<noteq> []"
    for tries t rs d rs'
    by (induction tries t rs rule: usb_recv_loop.induct)
       (auto simp: usb_recv_done_def split: if_splits)
  have ne': "usb_recv usb = Some (JAYLINK_OK, d, usb') \<Longrightarrow> 0 < length d" for usb d usb'
    by (auto simp: usb_recv_def split: option.splits dest: ne)
  show ?thesis
    by (relation "measure (\<lambda>(devh, usb, out, len). len)") (auto dest!: ne')
qed

declare read_loop.simps [simp del]

definition transport_read ::
  "jaylink_device_handle \<Rightarrow> usb_device \<Rightarrow> nat \<Rightarrow>
     (jaylink_error \<times> byte list \<times> jaylink_device_handle \<times> usb_device) option"
where
  "transport_read devh usb len =
     (if len > read_length devh + bytes_available devh
      then Some (JAYLINK_ERR_ARG, [], devh, usb)
      else if len \<le> bytes_available devh then
        Some (JAYLINK_OK, take len (drop (read_pos devh) (buffer devh)),
              devh\<lparr>bytes_available := bytes_available devh - len,
                   read_pos := read_pos devh + len\<rparr>,
              usb)
      else if bytes_available devh \<noteq> 0 then
        read_loop (devh\<lparr>bytes_available := 0, read_pos := 0\<rparr>) usb
          (take (bytes_available devh) (drop (read_pos devh) (buffer devh)))
          (len - bytes_available devh)
      else read_loop devh usb [] len)"

subsection \<open>Sequences of calls\<close>

text \<open>
  A caller's sequence of \<^verbatim>\<open>transport_write\<close> calls, one per byte block, and of
  \<^verbatim>\<open>transport_read\<close> calls, one per length. The results are the return values of the
  calls in order and, for reading, what each call put into its caller's buffer.
\<close>

fun write_all ::
  "jaylink_device_handle \<Rightarrow> usb_device \<Rightarrow> byte list list \<Rightarrow>
     (jaylink_error list \<times> jaylink_device_handle \<times> usb_device) option"
where
  "write_all devh usb [] = Some ([], devh, usb)"
| "write_all devh usb (b # bs) =
     (case transport_write devh usb b of
        None \<Rightarrow> None
      | Some (ret, devh1, usb1) \<Rightarrow>
          (case write_all devh1 usb1 bs of
             None \<Rightarrow> None
           | Some (rets, devh2, usb2) \<Rightarrow> Some (ret # rets, devh2, usb2)))"

fun read_all ::
  "jaylink_device_handle \<Rightarrow> usb_device \<Rightarrow> nat list \<Rightarrow>
     (jaylink_error list \<times> byte list list \<times> jaylink_device_handle \<times> usb_device) option"
where
  "read_all devh usb [] = Some ([], [], devh, usb)"
| "read_all devh usb (n # ns) =
     (case transport_read devh usb n of
        None \<Rightarrow> None
      | Some (ret, out, devh1, usb1) \<Rightarrow>
          (case read_all devh1 usb1 ns of
             None \<Rightarrow> None
           | Some (rets, outs, devh2, usb2) \<Rightarrow> Some (ret # rets, out # outs, devh2, usb2)))"

subsection \<open>Inputs for the examples\<close>

text \<open>
  A handle as \<^verbatim>\<open>initialize_handle\<close> leaves it, with a zeroed scratch buffer, and a device
  given by the scripts of its two endpoints, before any transfer.
\<close>

definition idle_handle :: jaylink_device_handle where
  "idle_handle =
     \<lparr>buffer = replicate BUFFER_SIZE 0, read_length = 0, bytes_available = 0, read_pos = 0,
      write_length = 0, write_pos = 0\<rparr>"

definition usb_script ::
  "(libusb_error \<times> byte list) list \<Rightarrow> (libusb_error \<times> nat) list \<Rightarrow> usb_device" where
  "usb_script ins outs = \<lparr>ep_in = ins, ep_out = outs, send_calls = [], wire_out = []\<rparr>"

subsection \<open>What a sequence of writes leaves behind\<close>

text \<open>
  \<open>staged\<close> is the part of the scratch buffer that holds bytes of the current write
  operation, and \<open>write_ok\<close> the condition under which the copies of
  \<^verbatim>\<open>transport_write\<close> stay inside the buffer: the buffer has its \<^verbatim>\<open>BUFFER_SIZE\<close>
  bytes, the staged bytes lie inside it, and bytes are staged only while the operation
  expects more. \<open>wire_bytes\<close> is everything the device took on the OUT endpoint, and
  \<open>write_outcome\<close> reads the return values, the \<^verbatim>\<open>usb_send\<close> calls and the bulk
  transfers off the result of a sequence of writes.
\<close>

definition staged :: "jaylink_device_handle \<Rightarrow> byte list" where
  "staged devh = take (write_pos devh) (buffer devh)"



definition write_outcome ::
  "(jaylink_error list \<times> jaylink_device_handle \<times> usb_device) option \<Rightarrow>
     (jaylink_error list \<times> byte list list \<times> (libusb_error \<times> byte list) list) option"
where
  "write_outcome res =
     map_option (\<lambda>(rets, devh, usb). (rets, send_calls usb, wire_out usb)) res"

text \<open>
  \<open>accepting rs n\<close>: the OUT endpoint has at least \<open>n\<close> bulk transfers to come, each of
  which succeeds and takes at least one byte; \<open>n\<close> bytes then get through.
  \<open>buffering_fits wp wl bufs\<close>: in a sequence of writes that starts with \<open>wp\<close> bytes
  staged and \<open>wl\<close> bytes expected, every call that only buffers keeps the staged bytes
  within \<^verbatim>\<open>BUFFER_SIZE\<close>.
\<close>

definition accepting :: "(libusb_error \<times> nat) list \<Rightarrow> nat \<Rightarrow> bool" where
  "accepting rs n \<longleftrightarrow> n \<le> length rs \<and> (\<forall>r \<in> set rs. fst r = LIBUSB_SUCCESS \<and> snd r \<noteq> 0)"


subsection \<open>What a sequence of reads delivers\<close>

text \<open>
  \<open>pending\<close> is the part of the scratch buffer received from the device and not yet
  given to a caller, and \<open>read_ok\<close> the condition under which the copies of
  \<^verbatim>\<open>transport_read\<close> stay inside the buffer. \<open>in_stream\<close> is the byte stream of the
  IN endpoint: the bytes of its bulk transfers still to come, in order.
  \<open>after_receive\<close> is the handle after one round of the loop of \<^verbatim>\<open>transport_read\<close>
  that received the given bytes with \<open>len\<close> bytes still requested.
\<close>

definition pending :: "jaylink_device_handle \<Rightarrow> byte list" where
  "pending devh = take (bytes_available devh) (drop (read_pos devh) (buffer devh))"

definition read_ok :: "jaylink_device_handle \<Rightarrow> bool" where
  "read_ok devh \<longleftrightarrow>
     length (buffer devh) = BUFFER_SIZE \<and> read_pos devh + bytes_available devh \<le> BUFFER_SIZE"

definition in_stream :: "usb_device \<Rightarrow> byte list" where
  "in_stream usb = concat (map (\<lambda>r. bulk_in (snd r)) (ep_in usb))"

definition after_receive ::
  "jaylink_device_handle \<Rightarrow> nat \<Rightarrow> byte list \<Rightarrow> jaylink_device_handle" where
  "after_receive devh len received =
     (if len < CHUNK_SIZE then
        (if len < length received
         then devh\<lparr>buffer := memcpy_at (buffer devh) 0 received,
                   bytes_available := length received - len, read_pos := len,
                   read_length := read_length devh - length received\<rparr>
         else devh\<lparr>buffer := memcpy_at (buffer devh) 0 received,
                   read_length := read_length devh - length received\<rparr>)
      else devh\<lparr>read_length := read_length devh - length received\<rparr>)"

text \<open>
  \<open>delivers rs n\<close>: the IN endpoint produces \<open>n\<close> bytes in bulk transfers that succeed,
  are not empty and do not run past the \<open>n\<close>-th byte; what follows is not constrained.
\<close>

fun delivers :: "(libusb_error \<times> byte list) list \<Rightarrow> nat \<Rightarrow> bool" where
  "delivers [] n = (n = 0)"
| "delivers ((ret, d) # rs) n =
     (n = 0 \<or> (ret = LIBUSB_SUCCESS \<and> d \<noteq> [] \<and> length d \<le> CHUNK_SIZE \<and> length d \<le> n \<and>
               delivers rs (n - length d)))"

definition read_outcome ::
  "(jaylink_error list \<times> byte list list \<times> jaylink_device_handle \<times> usb_device) option \<Rightarrow>
     (jaylink_error list \<times> byte list list) option"
where
  "read_outcome res = map_option (\<lambda>(rets, outs, devh, usb). (rets, outs)) res"

subsection \<open>The transfers of one backend call\<close>








section \<open>Properties\<close>

subsection \<open>Steps of the two backend loops\<close>

lemma usb_recv_loop_stop:
  "tries = 0 \<or> t \<noteq> [] \<Longrightarrow> usb_recv_loop tries t rs = usb_recv_done t rs"
  by (cases rs) auto

lemma usb_send_loop_stop:
  "tries = 0 \<or> buf = [] \<Longrightarrow> usb_send_loop tries buf rs = usb_send_done buf rs"
  by (cases rs) auto

lemma take_min_length: "take (min n (length xs)) xs = take n xs"
  by (simp add: min_def)

lemma drop_length_min: "drop (min (length xs) n) xs = drop n xs"
  by (simp add: min_def)

lemma bulk_in_empty: "bulk_in d = [] \<longleftrightarrow> d = []"
  by (simp add: bulk_in_def CHUNK_SIZE_def)

lemma bulk_out_chunk:
  "bulk_out k (take (min CHUNK_SIZE (length buf)) buf) = take k (take CHUNK_SIZE buf)"
  by (simp add: bulk_out_def take_min_length)


lemma usb_send_loop_success:
  assumes "tries \<noteq> 0" and "buf \<noteq> []"
  shows "usb_send_loop tries buf ((LIBUSB_SUCCESS, k) # rs) =
           sent_first (LIBUSB_SUCCESS, take k (take CHUNK_SIZE buf))
             (usb_send_loop NUM_TIMEOUTS (drop (min k CHUNK_SIZE) buf) rs)"
  using assms by (simp add: bulk_out_chunk drop_length_min Let_def)


lemma usb_recv_loop_timeout:
  assumes "tries \<noteq> 0"
  shows "usb_recv_loop tries [] ((LIBUSB_ERROR_TIMEOUT, d) # rs) =
           (if d = [] then usb_recv_loop (tries - 1) [] rs
            else Some (JAYLINK_OK, take CHUNK_SIZE d, rs))"
  using assms
  by (simp add: usb_recv_loop_stop bulk_in_empty usb_recv_done_def)
     (simp add: bulk_in_def)

lemma usb_recv_loop_success:
  assumes "tries \<noteq> 0"
  shows "usb_recv_loop tries [] ((LIBUSB_SUCCESS, d) # rs) =
           (if d = [] then usb_recv_loop tries [] rs
            else Some (JAYLINK_OK, take CHUNK_SIZE d, rs))"
  using assms
  by (simp add: usb_recv_loop_stop bulk_in_empty usb_recv_done_def)
     (simp add: bulk_in_def)

lemma usb_recv_loop_error:
  assumes "tries \<noteq> 0" and "e \<noteq> LIBUSB_SUCCESS" and "e \<noteq> LIBUSB_ERROR_TIMEOUT"
  shows "usb_recv_loop tries [] ((e, d) # rs) = Some (JAYLINK_ERR, take CHUNK_SIZE d, rs)"
  using assms by (simp add: bulk_in_def)


lemma usb_recv_length:
  "usb_recv_loop tries t rs = Some (ret, d, rs') \<Longrightarrow> length t \<le> CHUNK_SIZE \<Longrightarrow>
   length d \<le> CHUNK_SIZE"
  by (induction tries t rs rule: usb_recv_loop.induct)
     (auto simp: usb_recv_done_def bulk_in_def split: if_splits)

subsection \<open>The completing write\<close>

lemma take_length_min: "take (min (length xs) n) xs = take n xs"
  by (simp add: min_def)

lemma memcpy_at_Nil: "memcpy_at dst pos [] = dst"
  by (simp add: memcpy_at_def)

lemma length_memcpy_at:
  "pos + length src \<le> length dst \<Longrightarrow> length (memcpy_at dst pos src) = length dst"
  by (simp add: memcpy_at_def)

lemma take_memcpy_at:
  "pos \<le> length dst \<Longrightarrow> take (pos + length src) (memcpy_at dst pos src) = take pos dst @ src"
  by (simp add: memcpy_at_def)

lemma usb_send_calls:
  "usb_send usb buf = Some (ret, usb') \<Longrightarrow>
   send_calls usb' = send_calls usb @ [buf] \<and> ep_in usb' = ep_in usb"
  by (auto simp: usb_send_def split: option.splits)

lemma transport_write_flush:
  assumes "length buf = write_length devh" and "0 < write_pos devh"
    and "write_pos devh \<le> BUFFER_SIZE" and "length (buffer devh) = BUFFER_SIZE"
  shows "transport_write devh usb buf =
     (let fill = BUFFER_SIZE - write_pos devh;
          block = take (write_pos devh) (buffer devh) @ take fill buf;
          devh3 = devh\<lparr>write_length := 0,
                       buffer := memcpy_at (buffer devh) (write_pos devh) (take fill buf),
                       write_pos := 0\<rparr>
      in case usb_send usb block of
           None \<Rightarrow> None
         | Some (ret, usb1) \<Rightarrow>
             if ret \<noteq> JAYLINK_OK then Some (ret, devh3, usb1)
             else if drop fill buf = [] then Some (JAYLINK_OK, devh3, usb1)
             else (case usb_send usb1 (drop fill buf) of
                     None \<Rightarrow> None
                   | Some (ret2, usb2) \<Rightarrow> Some (ret2, devh3, usb2)))"
proof -
  let ?wp = "write_pos devh"
  let ?fill = "BUFFER_SIZE - ?wp"
  let ?tmp = "min (length buf) ?fill"
  have tk: "take ?tmp buf = take ?fill buf" by (rule take_length_min)
  have dr: "drop ?tmp buf = drop ?fill buf" by (rule drop_length_min)
  have len: "length (take ?fill buf) = ?tmp" by (simp add: min.commute)
  have blk: "take (?wp + ?tmp) (memcpy_at (buffer devh) ?wp (take ?fill buf)) =
             take ?wp (buffer devh) @ take ?fill buf"
    using take_memcpy_at [of ?wp "buffer devh" "take ?fill buf"] assms(3,4)
    by (simp only: len)
  have C0: "CHUNK_SIZE \<noteq> 0" by (simp add: CHUNK_SIZE_def)
  have n1: "\<not> write_length devh < length buf" and n2: "\<not> length buf < write_length devh"
    using assms(1) by simp_all
  have A: "?wp = CHUNK_SIZE \<Longrightarrow> ?thesis"
    using assms(1,2) C0
    by (simp add: transport_write_def Let_def BUFFER_SIZE_def memcpy_at_Nil
        split: option.split prod.split)
  have B: "?wp < CHUNK_SIZE \<Longrightarrow> buf = [] \<Longrightarrow> ?thesis"
    using assms(1,2)
    by (simp add: transport_write_def Let_def BUFFER_SIZE_def memcpy_at_Nil
        split: option.split prod.split)
  have C: "?wp < CHUNK_SIZE \<Longrightarrow> buf \<noteq> [] \<Longrightarrow> ?thesis"
    using assms(2)
    by (simp add: transport_write_def n1 n2)
       (simp only: Let_def tk dr blk BUFFER_SIZE_def [symmetric])
  show ?thesis
  proof (cases "?wp = CHUNK_SIZE")
    case True
    then show ?thesis by (rule A)
  next
    case False
    with assms(3) have lt: "?wp < CHUNK_SIZE" by (simp add: BUFFER_SIZE_def)
    show ?thesis
    proof (cases "buf = []")
      case True
      from B [OF lt True] show ?thesis .
    next
      case False
      from C [OF lt False] show ?thesis .
    qed
  qed
qed







lemma usb_send_loop_total:
  assumes "accepting rs (length buf)" and "tries \<noteq> 0"
  shows "\<exists>wire rs'. usb_send_loop tries buf rs = Some (JAYLINK_OK, wire, rs') \<and>
           (\<forall>m. accepting rs (length buf + m) \<longrightarrow> accepting rs' m)"
  using assms
proof (induction rs arbitrary: tries buf)
  case Nil
  then have "buf = []" by (simp add: accepting_def)
  then show ?case by (simp add: usb_send_done_def)
next
  case (Cons r rs)
  obtain ret k where r: "r = (ret, k)" by (cases r)
  show ?case
  proof (cases "buf = []")
    case True
    then have "usb_send_loop tries buf (r # rs) = usb_send_done buf (r # rs)"
      by (intro usb_send_loop_stop) simp
    with True show ?thesis by (simp add: usb_send_done_def)
  next
    case False
    from Cons.prems(1) r have s: "ret = LIBUSB_SUCCESS" and k: "k \<noteq> 0"
      and all: "\<forall>r \<in> set rs. fst r = LIBUSB_SUCCESS \<and> snd r \<noteq> 0"
      and len: "length buf \<le> Suc (length rs)"
      by (simp_all add: accepting_def)
    let ?rest = "drop (min k CHUNK_SIZE) buf"
    from False k have sh: "length ?rest < length buf"
      by (cases buf) (simp_all add: CHUNK_SIZE_def)
    with len all have acc: "accepting rs (length ?rest)"
      unfolding accepting_def by simp
    have nt: "NUM_TIMEOUTS \<noteq> 0" by (simp add: NUM_TIMEOUTS_def)
    from Cons.IH [OF acc nt] obtain wire rs'
      where w: "usb_send_loop NUM_TIMEOUTS ?rest rs = Some (JAYLINK_OK, wire, rs')"
        and m: "\<forall>m. accepting rs (length ?rest + m) \<longrightarrow> accepting rs' m"
      by blast
    have "usb_send_loop tries buf (r # rs) =
            Some (JAYLINK_OK, (LIBUSB_SUCCESS, take k (take CHUNK_SIZE buf)) # wire, rs')"
      by (simp only: r s usb_send_loop_success [OF Cons.prems(2) False] w sent_first_def
          option.case prod.case)
    moreover have "\<forall>m. accepting (r # rs) (length buf + m) \<longrightarrow> accepting rs' m"
    proof (intro allI impI)
      fix m
      assume "accepting (r # rs) (length buf + m)"
      with sh have "accepting rs (length ?rest + m)"
        unfolding accepting_def by simp
      with m show "accepting rs' m" by blast
    qed
    ultimately show ?thesis by blast
  qed
qed

lemma usb_send_total:
  assumes "accepting (ep_out usb) (length buf + m)"
  shows "\<exists>usb'. usb_send usb buf = Some (JAYLINK_OK, usb') \<and> accepting (ep_out usb') m"
proof -
  from assms have a: "accepting (ep_out usb) (length buf)"
    by (simp add: accepting_def)
  have nt: "NUM_TIMEOUTS \<noteq> 0" by (simp add: NUM_TIMEOUTS_def)
  from usb_send_loop_total [OF a nt] assms obtain wire rs'
    where "usb_send_loop NUM_TIMEOUTS buf (ep_out usb) = Some (JAYLINK_OK, wire, rs')"
      and "accepting rs' m"
    by blast
  then show ?thesis by (simp add: usb_send_def)
qed

lemma transport_write_total:
  assumes lb: "length (buffer devh) = BUFFER_SIZE" and wp: "write_pos devh \<le> BUFFER_SIZE"
    and le: "length b \<le> write_length devh"
    and fit: "length b < write_length devh \<longrightarrow> write_pos devh + length b \<le> BUFFER_SIZE"
    and acc: "accepting (ep_out usb) (write_pos devh + write_length devh)"
  shows "\<exists>devh1 usb1. transport_write devh usb b = Some (JAYLINK_OK, devh1, usb1) \<and>
           accepting (ep_out usb1) (write_pos devh1 + write_length devh1) \<and>
           write_pos devh1 = (if length b < write_length devh then write_pos devh + length b else 0)"
proof -
  consider (buffering) "length b < write_length devh"
    | (direct) "length b = write_length devh" "write_pos devh = 0"
    | (flush) "length b = write_length devh" "0 < write_pos devh"
    using le by linarith
  then show ?thesis
  proof cases
    case buffering
    with fit acc show ?thesis
      by (simp add: transport_write_def Let_def)
  next
    case direct
    from acc direct have "accepting (ep_out usb) (length b + 0)" by simp
    from usb_send_total [OF this] obtain usb1
      where "usb_send usb b = Some (JAYLINK_OK, usb1)" and "accepting (ep_out usb1) 0"
      by blast
    with direct show ?thesis
      by (simp add: transport_write_def Let_def)
  next
    case flush
    let ?fill = "BUFFER_SIZE - write_pos devh"
    let ?block = "take (write_pos devh) (buffer devh) @ take ?fill b"
    note tw = transport_write_flush [OF flush(1) flush(2) wp lb, of usb, unfolded Let_def]
    from lb wp have lblock: "length ?block = write_pos devh + min (length b) ?fill"
      by (simp add: min.commute)
    show ?thesis
    proof (cases "drop ?fill b = []")
      case True
      then have "length b \<le> ?fill" by simp
      with lblock acc flush have "accepting (ep_out usb) (length ?block + 0)" by simp
      from usb_send_total [OF this] obtain usb1
        where "usb_send usb ?block = Some (JAYLINK_OK, usb1)" and "accepting (ep_out usb1) 0"
        by blast
      with True show ?thesis
        by (simp add: tw flush(1) [symmetric])
    next
      case False
      then have gt: "?fill < length b" by simp
      with lblock acc flush
      have "accepting (ep_out usb) (length ?block + length (drop ?fill b))" by simp
      from usb_send_total [OF this] obtain usb1
        where s1: "usb_send usb ?block = Some (JAYLINK_OK, usb1)"
          and a1: "accepting (ep_out usb1) (length (drop ?fill b))"
        by blast
      from a1 have "accepting (ep_out usb1) (length (drop ?fill b) + 0)" by simp
      from usb_send_total [OF this] obtain usb2
        where s2: "usb_send usb1 (drop ?fill b) = Some (JAYLINK_OK, usb2)"
          and a2: "accepting (ep_out usb2) 0"
        by blast
      from s1 s2 a2 False show ?thesis
        by (simp add: tw flush(1) [symmetric])
    qed
  qed
qed


lemma transport_write_completing:
  assumes "length buf = write_length devh" and "write_pos devh \<le> BUFFER_SIZE"
    and "length (buffer devh) = BUFFER_SIZE"
    and "transport_write devh usb buf = Some (ret, devh', usb')"
  shows "write_length devh' = 0 \<and> write_pos devh' = 0 \<and>
    (write_pos devh = 0 \<longrightarrow>
       usb_send usb buf = Some (ret, usb') \<and> send_calls usb' = send_calls usb @ [buf]) \<and>
    (write_pos devh \<noteq> 0 \<longrightarrow>
       (\<exists>ret1 usb1.
          usb_send usb (staged devh @ take (CHUNK_SIZE - write_pos devh) buf) = Some (ret1, usb1) \<and>
          (if ret1 = JAYLINK_OK \<and> CHUNK_SIZE - write_pos devh < length buf
           then usb_send usb1 (drop (CHUNK_SIZE - write_pos devh) buf) = Some (ret, usb') \<and>
                send_calls usb' = send_calls usb @
                  [staged devh @ take (CHUNK_SIZE - write_pos devh) buf,
                   drop (CHUNK_SIZE - write_pos devh) buf]
           else ret = ret1 \<and> usb' = usb1 \<and>
                send_calls usb' = send_calls usb @
                  [staged devh @ take (CHUNK_SIZE - write_pos devh) buf])))"
proof (cases "write_pos devh = 0")
  case True
  with assms(1,4) have s: "usb_send usb buf = Some (ret, usb')"
    and d: "devh' = devh\<lparr>write_length := 0\<rparr>"
    by (auto simp: transport_write_def Let_def split: option.splits)
  from usb_send_calls [OF s] s d True show ?thesis by simp
next
  case False
  then have pos: "0 < write_pos devh" by simp
  let ?fill = "CHUNK_SIZE - write_pos devh"
  let ?block = "staged devh @ take ?fill buf"
  let ?d3 = "devh\<lparr>write_length := 0,
                   buffer := memcpy_at (buffer devh) (write_pos devh) (take ?fill buf),
                   write_pos := 0\<rparr>"
  note tw = assms(4) [unfolded transport_write_flush [OF assms(1) pos assms(2,3)] Let_def,
      folded staged_def, unfolded BUFFER_SIZE_def]
  from tw obtain ret1 usb1 where s1: "usb_send usb ?block = Some (ret1, usb1)"
    by (auto split: option.splits)
  note c1 = usb_send_calls [OF s1]
  have tail: "if ret1 = JAYLINK_OK \<and> ?fill < length buf
     then usb_send usb1 (drop ?fill buf) = Some (ret, usb') \<and>
          send_calls usb' = send_calls usb @ [?block, drop ?fill buf]
     else ret = ret1 \<and> usb' = usb1 \<and> send_calls usb' = send_calls usb @ [?block]"
  proof (cases "ret1 = JAYLINK_OK \<and> ?fill < length buf")
    case True
    with tw s1 have s2: "usb_send usb1 (drop ?fill buf) = Some (ret, usb')"
      by (auto split: option.splits)
    from usb_send_calls [OF s2] c1 s2 True show ?thesis by simp
  next
    case False
    with tw s1 have "ret = ret1 \<and> usb' = usb1"
      by (auto split: if_splits)
    with c1 False show ?thesis by simp
  qed
  from tw s1 have "devh' = ?d3"
    by (auto split: if_splits option.splits)
  with s1 tail False show ?thesis by auto
qed

subsection \<open>The loop of reading\<close>

lemma read_loop_0: "read_loop devh usb out 0 = Some (JAYLINK_OK, out, devh, usb)"
  by (subst read_loop.simps) simp

lemma take_memcpy_at_0: "n \<le> length src \<Longrightarrow> take n (memcpy_at dst 0 src) = take n src"
  by (simp add: memcpy_at_def)

lemma usb_recv_loop_stream:
  "usb_recv_loop tries [] rs = Some (JAYLINK_OK, d, rs') \<Longrightarrow>
   d \<noteq> [] \<and> concat (map (\<lambda>r. bulk_in (snd r)) rs) = d @ concat (map (\<lambda>r. bulk_in (snd r)) rs')"
proof (induction rs arbitrary: tries)
  case Nil
  then show ?case by (simp add: usb_recv_done_def split: if_splits)
next
  case (Cons r rs)
  obtain ret x where r: "r = (ret, x)" by (cases r)
  show ?case
  proof (cases "tries = 0")
    case True
    then have "usb_recv_loop tries [] (r # rs) = usb_recv_done [] (r # rs)"
      by (intro usb_recv_loop_stop) simp
    with Cons.prems show ?thesis by (simp add: usb_recv_done_def)
  next
    case False
    note t = this
    show ?thesis
    proof (cases "x = []")
      case True
      note x = this
      show ?thesis
      proof (cases "ret = LIBUSB_ERROR_TIMEOUT")
        case True
        from Cons.prems [unfolded r True x usb_recv_loop_timeout [OF t]]
        have "usb_recv_loop (tries - 1) [] rs = Some (JAYLINK_OK, d, rs')" by simp
        from Cons.IH [OF this] show ?thesis by (simp add: r x bulk_in_def)
      next
        case False
        note nt = this
        show ?thesis
        proof (cases "ret = LIBUSB_SUCCESS")
          case True
          from Cons.prems [unfolded r True x usb_recv_loop_success [OF t]]
          have "usb_recv_loop tries [] rs = Some (JAYLINK_OK, d, rs')" by simp
          from Cons.IH [OF this] show ?thesis by (simp add: r x bulk_in_def)
        next
          case False
          from Cons.prems [unfolded r usb_recv_loop_error [OF t False nt]]
          show ?thesis by simp
        qed
      qed
    next
      case False
      note x = this
      have b: "bulk_in x \<noteq> []" using x by (simp add: bulk_in_empty)
      show ?thesis
      proof (cases "ret = LIBUSB_ERROR_TIMEOUT")
        case True
        from Cons.prems [unfolded r True usb_recv_loop_timeout [OF t]] x
        have "d = take CHUNK_SIZE x" and "rs' = rs" by simp_all
        with b show ?thesis by (simp add: r bulk_in_def)
      next
        case False
        note nt = this
        show ?thesis
        proof (cases "ret = LIBUSB_SUCCESS")
          case True
          from Cons.prems [unfolded r True usb_recv_loop_success [OF t]] x
          have "d = take CHUNK_SIZE x" and "rs' = rs" by simp_all
          with b show ?thesis by (simp add: r bulk_in_def)
        next
          case False
          from Cons.prems [unfolded r usb_recv_loop_error [OF t False nt]]
          show ?thesis by simp
        qed
      qed
    qed
  qed
qed

lemma usb_recv_ok:
  assumes "usb_recv usb = Some (JAYLINK_OK, d, usb1)"
  shows "d \<noteq> [] \<and> length d \<le> CHUNK_SIZE \<and> in_stream usb = d @ in_stream usb1"
proof -
  from assms obtain rs where l: "usb_recv_loop NUM_TIMEOUTS [] (ep_in usb) = Some (JAYLINK_OK, d, rs)"
    and u: "usb1 = usb\<lparr>ep_in := rs\<rparr>"
    by (auto simp: usb_recv_def split: option.splits)
  from usb_recv_length [OF l] usb_recv_loop_stream [OF l] show ?thesis
    by (simp add: in_stream_def u)
qed

lemma read_loop_step:
  assumes "len \<noteq> 0" and "usb_recv usb = Some (JAYLINK_OK, received, usb1)"
    and "length received \<le> read_length devh"
  shows "read_loop devh usb out len =
           read_loop (after_receive devh len received) usb1
             (out @ take len received) (len - length received)"
proof (cases "len < CHUNK_SIZE")
  case True
  have tk: "take (min (length received) len) (memcpy_at (buffer devh) 0 received) =
            take len received"
    by (simp add: take_memcpy_at_0) (simp add: min_def)
  show ?thesis
  proof (cases "len < length received")
    case gt: True
    with True assms tk show ?thesis
      by (subst read_loop.simps) (simp add: Let_def after_receive_def min_def)
  next
    case le: False
    with True assms tk show ?thesis
      by (subst read_loop.simps) (simp add: Let_def after_receive_def min_def)
  qed
next
  case False
  with usb_recv_ok [OF assms(2)] have "take len received = received" by simp
  with False assms show ?thesis
    by (subst read_loop.simps) (simp add: Let_def after_receive_def)
qed

lemma read_loop_ok_recv:
  assumes "read_loop devh usb out len = Some (JAYLINK_OK, out', devh', usb')" and "len \<noteq> 0"
  shows "\<exists>received usb1. usb_recv usb = Some (JAYLINK_OK, received, usb1) \<and>
           length received \<le> read_length devh"
proof (cases "usb_recv usb")
  case None
  with assms show ?thesis by (subst (asm) read_loop.simps) simp
next
  case (Some x)
  obtain ret received usb1 where x: "x = (ret, received, usb1)" by (cases x)
  from assms Some x have "ret = JAYLINK_OK \<and> length received \<le> read_length devh"
    by (subst (asm) read_loop.simps) (auto simp: Let_def split: if_splits)
  with Some x show ?thesis by simp
qed

lemma pending_after_receive:
  assumes "bytes_available devh = 0" and "length received \<le> CHUNK_SIZE"
  shows "len < length received \<Longrightarrow>
           pending (after_receive devh len received) = drop len received"
    and "length received \<le> len \<Longrightarrow> bytes_available (after_receive devh len received) = 0"
  using assms by (auto simp: after_receive_def pending_def memcpy_at_def)

lemma read_ok_after_receive:
  assumes "read_ok devh" and "bytes_available devh = 0" and "length received \<le> CHUNK_SIZE"
  shows "read_ok (after_receive devh len received)"
  using assms by (auto simp: after_receive_def read_ok_def length_memcpy_at BUFFER_SIZE_def)

lemma read_length_after_receive:
  "read_length (after_receive devh len received) = read_length devh - length received"
  by (simp add: after_receive_def)

lemma read_loop_content:
  assumes "read_loop devh usb out len = Some (JAYLINK_OK, out', devh', usb')"
    and "bytes_available devh = 0" and "len \<le> read_length devh" and "read_ok devh"
  shows "\<exists>consumed. in_stream usb = consumed @ in_stream usb' \<and>
           out' @ pending devh' = out @ consumed \<and>
           read_length devh' + length consumed = read_length devh \<and>
           length out' = length out + len \<and> read_ok devh'"
  using assms
proof (induction len arbitrary: devh usb out rule: less_induct)
  case (less len)
  show ?case
  proof (cases "len = 0")
    case True
    with less.prems show ?thesis
      by (simp add: read_loop_0 pending_def)
  next
    case False
    from read_loop_ok_recv [OF less.prems(1) False] obtain received usb1
      where rc: "usb_recv usb = Some (JAYLINK_OK, received, usb1)"
        and fit: "length received \<le> read_length devh"
      by blast
    from usb_recv_ok [OF rc] have ne: "received \<noteq> []" and chunk: "length received \<le> CHUNK_SIZE"
      and str: "in_stream usb = received @ in_stream usb1"
      by simp_all
    let ?d = "after_receive devh len received"
    note step = less.prems(1) [unfolded read_loop_step [OF False rc fit]]
    note okd = read_ok_after_receive [OF less.prems(4) less.prems(2) chunk, of len]
    show ?thesis
    proof (cases "len < length received")
      case True
      then have z: "len - length received = 0" by simp
      from step [unfolded z read_loop_0]
      have o: "out' = out @ take len received" and d: "devh' = ?d" and u: "usb' = usb1"
        by simp_all
      from pending_after_receive(1) [OF less.prems(2) chunk True]
      have "out' @ pending devh' = out @ received"
        by (simp add: o d)
      with str okd True fit show ?thesis
        by (simp add: o d u read_length_after_receive)
    next
      case False
      then have le: "length received \<le> len" by simp
      then have tk: "take len received = received" by simp
      from ne le \<open>len \<noteq> 0\<close> have smaller: "len - length received < len"
        by (cases received) simp_all
      from pending_after_receive(2) [OF less.prems(2) chunk le]
      have ba: "bytes_available ?d = 0" .
      from le less.prems(3) have rem: "len - length received \<le> read_length ?d"
        by (simp add: read_length_after_receive)
      from less.IH [OF smaller step [unfolded tk] ba rem okd]
      obtain c where c: "in_stream usb1 = c @ in_stream usb'"
        "out' @ pending devh' = (out @ received) @ c"
        "read_length devh' + length c = read_length ?d"
        "length out' = length (out @ received) + (len - length received)"
        "read_ok devh'"
        by blast
      have "in_stream usb = (received @ c) @ in_stream usb' \<and>
            out' @ pending devh' = out @ (received @ c) \<and>
            read_length devh' + length (received @ c) = read_length devh \<and>
            length out' = length out + len \<and> read_ok devh'"
        using c str le fit by (simp add: read_length_after_receive)
      then show ?thesis by blast
    qed
  qed
qed

lemma transport_read_content:
  assumes "transport_read devh usb len = Some (JAYLINK_OK, out, devh', usb')"
    and "read_ok devh"
  shows "\<exists>consumed. in_stream usb = consumed @ in_stream usb' \<and>
           pending devh @ consumed = out @ pending devh' \<and>
           read_length devh' + length consumed = read_length devh \<and>
           length out = len \<and> read_ok devh'"
proof -
  let ?ba = "bytes_available devh"
  from assms(2) have lp: "length (pending devh) = ?ba"
    by (auto simp: pending_def read_ok_def)
  consider (big) "read_length devh + ?ba < len"
    | (served) "len \<le> ?ba"
    | (drain) "?ba < len" "len \<le> read_length devh + ?ba" "?ba \<noteq> 0"
    | (fresh) "?ba < len" "len \<le> read_length devh + ?ba" "?ba = 0"
    by linarith
  then show ?thesis
  proof cases
    case big
    with assms(1) show ?thesis by (simp add: transport_read_def)
  next
    case served
    with assms(1) have o: "out = take len (drop (read_pos devh) (buffer devh))"
      and d: "devh' = devh\<lparr>bytes_available := ?ba - len, read_pos := read_pos devh + len\<rparr>"
      and u: "usb' = usb"
      by (auto simp: transport_read_def)
    have "take (len + (?ba - len)) (drop (read_pos devh) (buffer devh)) =
            take len (drop (read_pos devh) (buffer devh)) @
            take (?ba - len) (drop len (drop (read_pos devh) (buffer devh)))"
      by (rule take_add)
    moreover have "drop len (drop (read_pos devh) (buffer devh)) =
                   drop (read_pos devh + len) (buffer devh)"
      by (simp only: drop_drop add.commute)
    moreover from served have "len + (?ba - len) = ?ba" by simp
    ultimately have "pending devh = out @ pending devh'"
      by (simp add: pending_def o d)
    moreover from assms(2) served have "read_ok devh'" and "length out = len"
      by (auto simp: d o read_ok_def)
    ultimately have "in_stream usb = [] @ in_stream usb' \<and>
           pending devh @ [] = out @ pending devh' \<and>
           read_length devh' + length ([] :: byte list) = read_length devh \<and>
           length out = len \<and> read_ok devh'"
      by (simp add: u d)
    then show ?thesis by blast
  next
    case drain
    let ?d = "devh\<lparr>bytes_available := 0, read_pos := 0\<rparr>"
    from drain assms(1)
    have l: "read_loop ?d usb (pending devh) (len - ?ba) = Some (JAYLINK_OK, out, devh', usb')"
      by (simp add: transport_read_def pending_def)
    from assms(2) have okd: "read_ok ?d" by (simp add: read_ok_def)
    from drain have rem: "len - ?ba \<le> read_length ?d" by simp
    from read_loop_content [OF l _ rem okd] lp drain show ?thesis by auto
  next
    case fresh
    with assms(1)
    have l: "read_loop devh usb [] len = Some (JAYLINK_OK, out, devh', usb')"
      by (simp add: transport_read_def)
    from fresh have rem: "len \<le> read_length devh" by simp
    from fresh have p: "pending devh = []" by (simp add: pending_def)
    from read_loop_content [OF l fresh(3) rem assms(2)] p show ?thesis by auto
  qed
qed

lemma read_all_content:
  assumes "read_all devh usb ns = Some (rets, outs, devh', usb')"
    and "\<forall>r \<in> set rets. r = JAYLINK_OK" and "read_ok devh"
  shows "\<exists>consumed. in_stream usb = consumed @ in_stream usb' \<and>
           pending devh @ consumed = concat outs @ pending devh' \<and>
           read_length devh' + length consumed = read_length devh \<and>
           map length outs = ns"
  using assms
proof (induction ns arbitrary: devh usb rets outs)
  case Nil
  then have "in_stream usb = [] @ in_stream usb' \<and>
           pending devh @ [] = concat outs @ pending devh' \<and>
           read_length devh' + length ([] :: byte list) = read_length devh \<and>
           map length outs = []"
    by simp
  then show ?case by blast
next
  case (Cons n ns)
  from Cons.prems(1) obtain r out d1 u1 rs1 os1
    where t: "transport_read devh usb n = Some (r, out, d1, u1)"
      and rest: "read_all d1 u1 ns = Some (rs1, os1, devh', usb')"
      and rets: "rets = r # rs1" and outs: "outs = out # os1"
    by (auto split: option.splits)
  from rets Cons.prems(2) have r: "r = JAYLINK_OK" and rs1: "\<forall>r \<in> set rs1. r = JAYLINK_OK"
    by simp_all
  from transport_read_content [OF t [unfolded r] Cons.prems(3)] obtain c1
    where c1: "in_stream usb = c1 @ in_stream u1" "pending devh @ c1 = out @ pending d1"
      "read_length d1 + length c1 = read_length devh" "length out = n" "read_ok d1"
    by blast
  from Cons.IH [OF rest rs1 c1(5)] obtain c2
    where c2: "in_stream u1 = c2 @ in_stream usb'" "pending d1 @ c2 = concat os1 @ pending devh'"
      "read_length devh' + length c2 = read_length d1" "map length os1 = ns"
    by blast
  have p: "pending devh @ (c1 @ c2) = concat outs @ pending devh'"
  proof -
    have "pending devh @ (c1 @ c2) = (pending devh @ c1) @ c2" by simp
    also have "\<dots> = out @ (pending d1 @ c2)" by (simp only: c1(2) append_assoc)
    also have "\<dots> = concat outs @ pending devh'" by (simp add: c2(2) outs)
    finally show ?thesis .
  qed
  have s: "in_stream usb = (c1 @ c2) @ in_stream usb'"
    by (simp add: c1(1) c2(1))
  from c1(3) c2(3) have l: "read_length devh' + length (c1 @ c2) = read_length devh"
    by simp
  have m: "map length outs = n # ns"
    by (simp add: outs c1(4) c2(4))
  from s p l m show ?case
    by (intro exI [of _ "c1 @ c2"] conjI)
qed

lemma read_all_first_bytes:
  assumes "n \<noteq> 0" and "length (buffer devh0) = BUFFER_SIZE" and "sum_list ns = n"
    and "read_all (fst (snd (transport_start_read devh0 n))) usb ns = Some (rets, outs, devh', usb')"
    and "\<forall>r \<in> set rets. r = JAYLINK_OK"
  shows "concat outs = take n (in_stream usb) \<and> map length outs = ns"
proof -
  let ?d = "fst (snd (transport_start_read devh0 n))"
  from assms(1,2) have ok: "read_ok ?d" and p: "pending ?d = []" and rl: "read_length ?d = n"
    by (simp_all add: transport_start_read_def read_ok_def pending_def)
  from read_all_content [OF assms(4,5) ok] obtain c
    where c: "in_stream usb = c @ in_stream usb'" "pending ?d @ c = concat outs @ pending devh'"
      "read_length devh' + length c = read_length ?d" "map length outs = ns"
    by blast
  from c(4) have "length (concat outs) = sum_list ns"
    by (simp add: length_concat)
  with assms(3) have lo: "length (concat outs) = n" by simp
  from c(2) p have eq: "c = concat outs @ pending devh'" by simp
  from c(3) rl have "length c \<le> n" by simp
  with eq lo have "pending devh' = []" and "c = concat outs" by simp_all
  with c(1) lo c(4) show ?thesis by simp
qed

lemma delivers_0: "delivers rs 0"
  by (cases rs) auto

lemma delivers_recv:
  assumes "delivers (ep_in usb) n" and "n \<noteq> 0"
  shows "\<exists>d rs. usb_recv usb = Some (JAYLINK_OK, d, usb\<lparr>ep_in := rs\<rparr>) \<and> length d \<le> n \<and>
           delivers rs (n - length d)"
proof (cases "ep_in usb")
  case Nil
  with assms show ?thesis by simp
next
  case (Cons r rs)
  obtain ret d where r: "r = (ret, d)" by (cases r)
  from assms Cons r have s: "ret = LIBUSB_SUCCESS" and ne: "d \<noteq> []"
    and c: "length d \<le> CHUNK_SIZE" and f: "length d \<le> n" and rest: "delivers rs (n - length d)"
    by simp_all
  have t: "NUM_TIMEOUTS \<noteq> 0" by (simp add: NUM_TIMEOUTS_def)
  from c have "take CHUNK_SIZE d = d" by simp
  with ne have "usb_recv usb = Some (JAYLINK_OK, d, usb\<lparr>ep_in := rs\<rparr>)"
    by (simp add: usb_recv_def Cons r s usb_recv_loop_success [OF t] del: usb_recv_loop.simps)
  with f rest show ?thesis by blast
qed

lemma read_loop_total:
  assumes "delivers (ep_in usb) (read_length devh)" and "len \<le> read_length devh"
  shows "\<exists>out' devh' usb'. read_loop devh usb out len = Some (JAYLINK_OK, out', devh', usb') \<and>
           delivers (ep_in usb') (read_length devh')"
  using assms
proof (induction len arbitrary: devh usb out rule: less_induct)
  case (less len)
  show ?case
  proof (cases "len = 0")
    case True
    with less.prems(1) show ?thesis by (simp add: read_loop_0)
  next
    case False
    with less.prems(2) have "read_length devh \<noteq> 0" by simp
    from delivers_recv [OF less.prems(1) this] obtain d rs
      where rc: "usb_recv usb = Some (JAYLINK_OK, d, usb\<lparr>ep_in := rs\<rparr>)"
        and fit: "length d \<le> read_length devh"
        and rest: "delivers rs (read_length devh - length d)"
      by blast
    from usb_recv_ok [OF rc] have ne: "d \<noteq> []" by simp
    let ?d = "after_receive devh len d"
    let ?u = "usb\<lparr>ep_in := rs\<rparr>"
    note step = read_loop_step [OF False rc fit, of out]
    from rest have dl: "delivers (ep_in ?u) (read_length ?d)"
      by (simp add: read_length_after_receive)
    show ?thesis
    proof (cases "len < length d")
      case True
      then have "len - length d = 0" by simp
      with step dl show ?thesis by (simp add: read_loop_0)
    next
      case False
      with ne \<open>len \<noteq> 0\<close> have smaller: "len - length d < len"
        by (cases d) simp_all
      from less.prems(2) have rem: "len - length d \<le> read_length ?d"
        by (simp add: read_length_after_receive)
      from less.IH [OF smaller dl rem, of "out @ take len d"] step show ?thesis
        by simp
    qed
  qed
qed

lemma length_pending: "read_ok devh \<Longrightarrow> length (pending devh) = bytes_available devh"
  by (auto simp: pending_def read_ok_def)

lemma transport_read_total:
  assumes "delivers (ep_in usb) (read_length devh)" and "read_ok devh"
    and "len \<le> read_length devh + bytes_available devh"
  shows "\<exists>out devh' usb'. transport_read devh usb len = Some (JAYLINK_OK, out, devh', usb') \<and>
           delivers (ep_in usb') (read_length devh') \<and> read_ok devh' \<and>
           read_length devh' + bytes_available devh' + len =
           read_length devh + bytes_available devh"
proof -
  have "\<exists>out devh' usb'. transport_read devh usb len = Some (JAYLINK_OK, out, devh', usb') \<and>
           delivers (ep_in usb') (read_length devh')"
  proof (cases "len \<le> bytes_available devh")
    case True
    with assms(1) show ?thesis by (simp add: transport_read_def)
  next
    case False
    show ?thesis
    proof (cases "bytes_available devh = 0")
      case True
      with assms(3) have "len \<le> read_length devh" by simp
      from read_loop_total [OF assms(1) this, of "[]"] False True assms(3) show ?thesis
        by (simp add: transport_read_def)
    next
      case nz: False
      let ?d = "devh\<lparr>bytes_available := 0, read_pos := 0\<rparr>"
      from assms(1) have dl: "delivers (ep_in usb) (read_length ?d)" by simp
      from assms(3) have "len - bytes_available devh \<le> read_length ?d" by simp
      from read_loop_total [OF dl this,
          of "take (bytes_available devh) (drop (read_pos devh) (buffer devh))"]
        False nz assms(3)
      show ?thesis by (simp add: transport_read_def)
    qed
  qed
  then obtain out devh' usb'
    where t: "transport_read devh usb len = Some (JAYLINK_OK, out, devh', usb')"
      and dl: "delivers (ep_in usb') (read_length devh')"
    by blast
  from transport_read_content [OF t assms(2)] obtain c
    where c: "pending devh @ c = out @ pending devh'"
      "read_length devh' + length c = read_length devh" "length out = len" "read_ok devh'"
    by blast
  from c(1) have "length (pending devh @ c) = length (out @ pending devh')" by simp
  with length_pending [OF assms(2)] length_pending [OF c(4)] c(3)
  have "bytes_available devh + length c = len + bytes_available devh'" by simp
  with c(2) have "read_length devh' + bytes_available devh' + len =
                  read_length devh + bytes_available devh" by simp
  with t dl c(4) show ?thesis by blast
qed

lemma read_all_total:
  assumes "delivers (ep_in usb) (read_length devh)" and "read_ok devh"
    and "sum_list ns \<le> read_length devh + bytes_available devh"
  shows "\<exists>outs devh' usb'.
           read_all devh usb ns = Some (replicate (length ns) JAYLINK_OK, outs, devh', usb')"
  using assms
proof (induction ns arbitrary: devh usb)
  case Nil
  then show ?case by simp
next
  case (Cons n ns)
  from Cons.prems(3) have "n \<le> read_length devh + bytes_available devh" by simp
  from transport_read_total [OF Cons.prems(1,2) this] obtain out d1 u1
    where t: "transport_read devh usb n = Some (JAYLINK_OK, out, d1, u1)"
      and dl: "delivers (ep_in u1) (read_length d1)" and ok: "read_ok d1"
      and acc: "read_length d1 + bytes_available d1 + n = read_length devh + bytes_available devh"
    by blast
  from acc Cons.prems(3) have "sum_list ns \<le> read_length d1 + bytes_available d1" by simp
  from Cons.IH [OF dl ok this] obtain outs devh' usb'
    where "read_all d1 u1 ns = Some (replicate (length ns) JAYLINK_OK, outs, devh', usb')"
    by blast
  with t show ?case by simp
qed

subsection \<open>The transfers of one call of the backend primitives\<close>























subsection \<open>Lengths beyond the declared operation\<close>

text \<open>
  Claim C5. A \<^verbatim>\<open>transport_write\<close> call whose length exceeds \<open>write_length\<close>, and a
  \<^verbatim>\<open>transport_read\<close> call whose length exceeds \<open>read_length + bytes_available\<close>,
  return \<^verbatim>\<open>JAYLINK_ERR_ARG\<close>; the handle and the device (its scripts and its record of
  transfers) are returned as they were, so no transfer took place.
\<close>

theorem length_exceeded_is_rejected:
  "(write_length devh < length buf \<longrightarrow>
      transport_write devh usb buf = Some (JAYLINK_ERR_ARG, devh, usb)) \<and>
   (read_length devh + bytes_available devh < len \<longrightarrow>
      transport_read devh usb len = Some (JAYLINK_ERR_ARG, [], devh, usb))"
  by (simp add: transport_write_def transport_read_def)

theorem length_exceeded_is_rejected_witness:
  "write_length (idle_handle\<lparr>read_length := 2, bytes_available := 1, write_length := 2\<rparr>)
     < length [1, 2, 3 :: byte] \<and>
   transport_write (idle_handle\<lparr>read_length := 2, bytes_available := 1, write_length := 2\<rparr>)
       (usb_script [] []) [1, 2, 3] =
     Some (JAYLINK_ERR_ARG,
           idle_handle\<lparr>read_length := 2, bytes_available := 1, write_length := 2\<rparr>,
           usb_script [] []) \<and>
   transport_read (idle_handle\<lparr>read_length := 2, bytes_available := 1, write_length := 2\<rparr>)
       (usb_script [] []) 4 =
     Some (JAYLINK_ERR_ARG, [],
           idle_handle\<lparr>read_length := 2, bytes_available := 1, write_length := 2\<rparr>,
           usb_script [] [])"
  using length_exceeded_is_rejected
    [where devh = "idle_handle\<lparr>read_length := 2, bytes_available := 1, write_length := 2\<rparr>"
       and buf = "[1, 2, 3]" and usb = "usb_script [] []" and len = 4]
  by (simp add: idle_handle_def)

subsection \<open>Reading from the scratch buffer\<close>

text \<open>
  Claim C9. A \<^verbatim>\<open>transport_read\<close> call whose length is at most \<open>bytes_available\<close>
  is served from the scratch buffer alone: \<open>bytes_available\<close> goes down and \<open>read_pos\<close>
  goes up by the length, the device is untouched, and \<open>read_length\<close>, \<open>write_length\<close>,
  \<open>write_pos\<close> and the buffer keep their values.
\<close>

theorem read_served_from_buffer:
  assumes "len \<le> bytes_available devh"
  shows "transport_read devh usb len =
           Some (JAYLINK_OK, take len (drop (read_pos devh) (buffer devh)),
                 devh\<lparr>bytes_available := bytes_available devh - len,
                      read_pos := read_pos devh + len\<rparr>,
                 usb)"
  using assms by (simp add: transport_read_def)

theorem read_served_from_buffer_witness:
  "(2::nat) \<le> bytes_available
      (idle_handle\<lparr>buffer := [1, 2, 3, 4, 5] @ replicate 2043 0, read_length := 7,
                   bytes_available := 3, read_pos := 2\<rparr>) \<and>
   transport_read
     (idle_handle\<lparr>buffer := [1, 2, 3, 4, 5] @ replicate 2043 0, read_length := 7,
                  bytes_available := 3, read_pos := 2\<rparr>)
     (usb_script [(LIBUSB_SUCCESS, [6])] []) 2 =
     Some (JAYLINK_OK, [3, 4],
           idle_handle\<lparr>buffer := [1, 2, 3, 4, 5] @ replicate 2043 0, read_length := 7,
                        bytes_available := 1, read_pos := 4\<rparr>,
           usb_script [(LIBUSB_SUCCESS, [6])] [])"
  using read_served_from_buffer
    [of 2 "idle_handle\<lparr>buffer := [1, 2, 3, 4, 5] @ replicate 2043 0, read_length := 7,
                        bytes_available := 3, read_pos := 2\<rparr>"
       "usb_script [(LIBUSB_SUCCESS, [6])] []"]
  by (simp add: idle_handle_def)

subsection \<open>Buffering beyond the scratch buffer\<close>

text \<open>
  Claim C10. \<^verbatim>\<open>transport_start_write\<close> accepts every nonzero length, whatever the
  capacity of the scratch buffer. A later \<^verbatim>\<open>transport_write\<close> call that does not complete
  the operation and whose bytes would not fit behind the staged bytes returns
  \<^verbatim>\<open>JAYLINK_ERR_ARG\<close>, with the handle and the device as they were.
\<close>

theorem buffering_overflow_is_rejected:
  "(len \<noteq> 0 \<longrightarrow> fst (transport_start_write devh0 len) = JAYLINK_OK \<and>
      write_length (fst (snd (transport_start_write devh0 len))) = len) \<and>
   (length buf < write_length devh \<and> BUFFER_SIZE < write_pos devh + length buf \<longrightarrow>
      transport_write devh usb buf = Some (JAYLINK_ERR_ARG, devh, usb))"
  by (simp add: transport_write_def transport_start_write_def)

theorem buffering_overflow_is_rejected_witness:
  "(5000::nat) \<noteq> 0 \<and> fst (transport_start_write idle_handle 5000) = JAYLINK_OK \<and>
   length [1, 2 :: byte] < write_length (idle_handle\<lparr>write_length := 2953, write_pos := 2047\<rparr>) \<and>
   BUFFER_SIZE < write_pos (idle_handle\<lparr>write_length := 2953, write_pos := 2047\<rparr>) +
     length [1, 2 :: byte] \<and>
   transport_write (idle_handle\<lparr>write_length := 2953, write_pos := 2047\<rparr>) (usb_script [] [])
       [1, 2] =
     Some (JAYLINK_ERR_ARG, idle_handle\<lparr>write_length := 2953, write_pos := 2047\<rparr>,
           usb_script [] [])"
  using buffering_overflow_is_rejected
    [where len = 5000 and ?devh0.0 = idle_handle and buf = "[1, 2]"
       and devh = "idle_handle\<lparr>write_length := 2953, write_pos := 2047\<rparr>"
       and usb = "usb_script [] []"]
  by (simp add: idle_handle_def BUFFER_SIZE_def CHUNK_SIZE_def)

subsection \<open>Starting over a stale operation\<close>

text \<open>
  Claim C8, as the spec states it, has each of the three start functions overwrite and
  diagnose the stale state, whether a write or a read was left incomplete.
  \<^verbatim>\<open>transport_start_write\<close> tests and sets the write fields only: on a handle with an
  incomplete read it returns \<^verbatim>\<open>JAYLINK_OK\<close> with \<open>read_length\<close>, \<open>bytes_available\<close> and
  \<open>read_pos\<close> as they were and with no warning in the log. \<^verbatim>\<open>transport_start_read\<close>
  does the same to an incomplete write.
\<close>

theorem start_keeps_other_direction:
  "transport_start_write
     (idle_handle\<lparr>read_length := 6, bytes_available := 5, read_pos := 2\<rparr>) 7 =
     (JAYLINK_OK,
      idle_handle\<lparr>read_length := 6, bytes_available := 5, read_pos := 2, write_length := 7\<rparr>,
      []) \<and>
   transport_start_read (idle_handle\<lparr>write_length := 4, write_pos := 3\<rparr>) 8 =
     (JAYLINK_OK, idle_handle\<lparr>read_length := 8, write_length := 4, write_pos := 3\<rparr>, [])"
  by (simp add: transport_start_write_def transport_start_read_def warn_write_def
      warn_read_def idle_handle_def)

text \<open>
  Claim C8, amended. For every handle, whatever a previous operation left in \<open>write_pos\<close>,
  \<open>write_length\<close>, \<open>bytes_available\<close>, \<open>read_length\<close> and \<open>read_pos\<close>, the three start
  functions return \<^verbatim>\<open>JAYLINK_OK\<close> when the lengths are not zero. Each function overwrites
  and diagnoses the state of the direction it starts, and of that direction only:
  \<^verbatim>\<open>transport_start_write\<close> stores the declared length in \<open>write_length\<close>, sets
  \<open>write_pos\<close> to zero and logs one warning for each of the stale \<open>write_pos\<close> and
  \<open>write_length\<close> that is not zero, leaving the read fields as they are;
  \<^verbatim>\<open>transport_start_read\<close> stores the declared length in \<open>read_length\<close>, sets
  \<open>bytes_available\<close> and \<open>read_pos\<close> to zero and logs one warning for each of the stale
  \<open>bytes_available\<close> and \<open>read_length\<close> that is not zero, leaving the write fields as
  they are; \<^verbatim>\<open>transport_start_write_read\<close> does both, the write warnings first. The log
  holds these warnings and no other.
\<close>

theorem start_overwrites_stale_state:
  "(wlen \<noteq> 0 \<longrightarrow>
          transport_start_write devh wlen =
           (JAYLINK_OK, devh\<lparr>write_length := wlen, write_pos := 0\<rparr>,
            (if write_pos devh \<noteq> 0 then [Write_left_in_buffer (write_pos devh)] else []) @
            (if write_length devh \<noteq> 0 then [Write_not_performed] else []))) \<and>
         (rlen \<noteq> 0 \<longrightarrow>
          transport_start_read devh rlen =
           (JAYLINK_OK, devh\<lparr>read_length := rlen, bytes_available := 0, read_pos := 0\<rparr>,
            (if bytes_available devh \<noteq> 0 then [Read_left_in_buffer (bytes_available devh)]
             else []) @
            (if read_length devh \<noteq> 0 then [Read_left_on_device (read_length devh)] else []))) \<and>
         (wlen \<noteq> 0 \<and> rlen \<noteq> 0 \<longrightarrow>
          transport_start_write_read devh wlen rlen =
           (JAYLINK_OK,
            devh\<lparr>write_length := wlen, write_pos := 0,
                 read_length := rlen, bytes_available := 0, read_pos := 0\<rparr>,
            (if write_pos devh \<noteq> 0 then [Write_left_in_buffer (write_pos devh)] else []) @
            (if write_length devh \<noteq> 0 then [Write_not_performed] else []) @
            (if bytes_available devh \<noteq> 0 then [Read_left_in_buffer (bytes_available devh)]
             else []) @
            (if read_length devh \<noteq> 0 then [Read_left_on_device (read_length devh)] else []))) \<and>
         read_length (fst (snd (transport_start_write devh wlen))) = read_length devh \<and>
         bytes_available (fst (snd (transport_start_write devh wlen))) = bytes_available devh \<and>
         read_pos (fst (snd (transport_start_write devh wlen))) = read_pos devh \<and>
         buffer (fst (snd (transport_start_write devh wlen))) = buffer devh \<and>
         write_length (fst (snd (transport_start_read devh rlen))) = write_length devh \<and>
         write_pos (fst (snd (transport_start_read devh rlen))) = write_pos devh \<and>
         buffer (fst (snd (transport_start_read devh rlen))) = buffer devh \<and>
         buffer (fst (snd (transport_start_write_read devh wlen rlen))) = buffer devh"
  by (simp add: transport_start_write_def transport_start_read_def
      transport_start_write_read_def warn_write_def warn_read_def)

theorem start_overwrites_stale_state_witness:
  "(7::nat) \<noteq> 0 \<and> (8::nat) \<noteq> 0 \<and>
   transport_start_write
     (idle_handle\<lparr>read_length := 6, bytes_available := 5, read_pos := 2,
                  write_length := 4, write_pos := 3\<rparr>) 7 =
     (JAYLINK_OK,
      idle_handle\<lparr>read_length := 6, bytes_available := 5, read_pos := 2,
                  write_length := 7, write_pos := 0\<rparr>,
      [Write_left_in_buffer 3, Write_not_performed]) \<and>
   transport_start_read
     (idle_handle\<lparr>read_length := 6, bytes_available := 5, read_pos := 2,
                  write_length := 4, write_pos := 3\<rparr>) 8 =
     (JAYLINK_OK,
      idle_handle\<lparr>read_length := 8, bytes_available := 0, read_pos := 0,
                  write_length := 4, write_pos := 3\<rparr>,
      [Read_left_in_buffer 5, Read_left_on_device 6]) \<and>
   transport_start_write_read
     (idle_handle\<lparr>read_length := 6, bytes_available := 5, read_pos := 2,
                  write_length := 4, write_pos := 3\<rparr>) 7 8 =
     (JAYLINK_OK,
      idle_handle\<lparr>read_length := 8, bytes_available := 0, read_pos := 0,
                  write_length := 7, write_pos := 0\<rparr>,
      [Write_left_in_buffer 3, Write_not_performed, Read_left_in_buffer 5,
       Read_left_on_device 6]) \<and>
   transport_start_write_read
     (idle_handle\<lparr>bytes_available := 5, write_length := 4\<rparr>) 7 8 =
     (JAYLINK_OK,
      idle_handle\<lparr>read_length := 8, bytes_available := 0, write_length := 7\<rparr>,
      [Write_not_performed, Read_left_in_buffer 5])"
  using
    start_overwrites_stale_state
      [where wlen = 7 and rlen = 8
         and devh = "idle_handle\<lparr>read_length := 6, bytes_available := 5, read_pos := 2,
                                 write_length := 4, write_pos := 3\<rparr>"]
    start_overwrites_stale_state
      [where wlen = 7 and rlen = 8
         and devh = "idle_handle\<lparr>bytes_available := 5, write_length := 4\<rparr>"]
  by (simp add: idle_handle_def)

subsection \<open>The bound on the staged bytes\<close>

text \<open>
  Claim C6, as the spec states it, asks that \<open>write_pos + write_length\<close> never exceeds
  \<^verbatim>\<open>BUFFER_SIZE\<close> once a write operation is started. \<^verbatim>\<open>transport_start_write\<close> accepts a
  declared length of 2049 bytes, and the sum is then 2049.
\<close>

theorem declared_length_may_exceed_buffer:
  "fst (transport_start_write idle_handle 2049) = JAYLINK_OK \<and>
   \<not> write_pos (fst (snd (transport_start_write idle_handle 2049))) +
       write_length (fst (snd (transport_start_write idle_handle 2049))) \<le> BUFFER_SIZE"
  by (simp add: transport_start_write_def idle_handle_def BUFFER_SIZE_def CHUNK_SIZE_def)

text \<open>
  Claim C6, amended. In every state reached from \<^verbatim>\<open>transport_start_write\<close> or
  \<^verbatim>\<open>transport_start_write_read\<close> with declared length \<open>n\<close> by any sequence of
  \<^verbatim>\<open>transport_write\<close> calls, \<open>write_pos\<close> is at most \<^verbatim>\<open>BUFFER_SIZE\<close> and
  \<open>write_pos + write_length\<close> is at most \<open>n\<close>; so the sum stays within
  \<^verbatim>\<open>BUFFER_SIZE\<close> whenever the declared length does.
\<close>

theorem write_pos_bounded:
  assumes "n \<noteq> 0" and "rlen \<noteq> 0"
    and "devh1 = fst (snd (transport_start_write devh0 n)) \<or>
         devh1 = fst (snd (transport_start_write_read devh0 n rlen))"
    and "write_all devh1 usb bufs = Some (rets, devh, usb')"
  shows "write_pos devh \<le> BUFFER_SIZE \<and> write_pos devh + write_length devh \<le> n \<and>
         (n \<le> BUFFER_SIZE \<longrightarrow> write_pos devh + write_length devh \<le> BUFFER_SIZE)"
proof -
  have step: "write_pos d' \<le> BUFFER_SIZE \<and> write_pos d' + write_length d' \<le> n"
    if "transport_write d u b = Some (r, d', u')"
      and "write_pos d \<le> BUFFER_SIZE \<and> write_pos d + write_length d \<le> n"
    for d u b r d' u'
    using that
    by (auto simp: transport_write_def Let_def split: if_splits option.splits)
  have run: "write_pos d' \<le> BUFFER_SIZE \<and> write_pos d' + write_length d' \<le> n"
    if "write_all d u bs = Some (rs, d', u')"
      and "write_pos d \<le> BUFFER_SIZE \<and> write_pos d + write_length d \<le> n"
    for d u bs rs d' u'
    using that
  proof (induction bs arbitrary: d u rs)
    case Nil
    then show ?case by simp
  next
    case (Cons b bs)
    from Cons.prems(1) obtain r d1 u1 rs1
      where w: "transport_write d u b = Some (r, d1, u1)"
        and rest: "write_all d1 u1 bs = Some (rs1, d', u')"
      by (auto split: option.splits)
    from Cons.IH [OF rest step [OF w Cons.prems(2)]] show ?case .
  qed
  have "write_pos devh1 \<le> BUFFER_SIZE \<and> write_pos devh1 + write_length devh1 \<le> n"
    using assms(1-3)
    by (auto simp: transport_start_write_def transport_start_write_read_def)
  from run [OF assms(4) this] show ?thesis by simp
qed

theorem write_pos_bounded_witness:
  "write_all (fst (snd (transport_start_write idle_handle 3))) (usb_script [] []) [[1, 2]] =
     Some ([JAYLINK_OK],
           idle_handle\<lparr>buffer := 1 # 2 # replicate 2046 0, write_length := 1, write_pos := 2\<rparr>,
           usb_script [] []) \<and>
   write_pos (idle_handle\<lparr>buffer := 1 # 2 # replicate 2046 0, write_length := 1,
                          write_pos := 2\<rparr>) \<le> BUFFER_SIZE \<and>
   write_pos (idle_handle\<lparr>buffer := 1 # 2 # replicate 2046 0, write_length := 1,
                          write_pos := 2\<rparr>) +
   write_length (idle_handle\<lparr>buffer := 1 # 2 # replicate 2046 0, write_length := 1,
                             write_pos := 2\<rparr>) \<le> 3"
proof -
  have run: "write_all (fst (snd (transport_start_write idle_handle 3))) (usb_script [] [])
               [[1, 2]] =
             Some ([JAYLINK_OK],
                   idle_handle\<lparr>buffer := 1 # 2 # replicate 2046 0, write_length := 1,
                                write_pos := 2\<rparr>,
                   usb_script [] [])"
    by (simp add: transport_start_write_def transport_write_def idle_handle_def memcpy_at_def
        BUFFER_SIZE_def CHUNK_SIZE_def)
  from write_pos_bounded [of 3 1 _ idle_handle, OF _ _ _ run] run show ?thesis
    by simp
qed

subsection \<open>Timeouts and errors of the backend\<close>




subsection \<open>A receive larger than the operation\<close>

text \<open>
  Claim C7. When a physical receive of \<^verbatim>\<open>transport_read\<close> succeeds with more bytes than
  \<open>read_length\<close>, the bytes the operation still expects (so also with more than the
  operation declared), the call returns \<^verbatim>\<open>JAYLINK_ERR\<close>, and the device is left as that
  one receive left it: nothing is tried again. This holds at every round of the loop, and
  so for the first receive of a call that needs one.
\<close>

theorem oversized_receive_fails:
  assumes "usb_recv usb = Some (JAYLINK_OK, received, usb1)"
    and "read_length devh < length received"
  shows "(len \<noteq> 0 \<longrightarrow>
            (\<exists>out' devh'. read_loop devh usb out len = Some (JAYLINK_ERR, out', devh', usb1))) \<and>
         (bytes_available devh < len \<and> len \<le> read_length devh + bytes_available devh \<longrightarrow>
            (\<exists>out' devh'. transport_read devh usb len = Some (JAYLINK_ERR, out', devh', usb1)))"
proof (intro conjI impI)
  have loop: "\<exists>out' devh'. read_loop d usb out l = Some (JAYLINK_ERR, out', devh', usb1)"
    if "l \<noteq> 0" and "read_length d = read_length devh" for d out l
    using that assms
    by (subst read_loop.simps) (simp add: Let_def)
  show "\<exists>out' devh'. read_loop devh usb out len = Some (JAYLINK_ERR, out', devh', usb1)"
    if "len \<noteq> 0"
    using that by (intro loop) simp_all
  show "\<exists>out' devh'. transport_read devh usb len = Some (JAYLINK_ERR, out', devh', usb1)"
    if "bytes_available devh < len \<and> len \<le> read_length devh + bytes_available devh"
    using that by (auto simp: transport_read_def intro!: loop)
qed

theorem oversized_receive_fails_witness:
  "usb_recv (usb_script [(LIBUSB_SUCCESS, [1, 2, 3, 4, 5, 6]), (LIBUSB_SUCCESS, [7])] []) =
     Some (JAYLINK_OK, [1, 2, 3, 4, 5, 6], usb_script [(LIBUSB_SUCCESS, [7])] []) \<and>
   read_length (fst (snd (transport_start_read idle_handle 5))) < length [1, 2, 3, 4, 5, 6 :: byte] \<and>
   (\<exists>out' devh'.
      transport_read (fst (snd (transport_start_read idle_handle 5)))
        (usb_script [(LIBUSB_SUCCESS, [1, 2, 3, 4, 5, 6]), (LIBUSB_SUCCESS, [7])] []) 5 =
      Some (JAYLINK_ERR, out', devh', usb_script [(LIBUSB_SUCCESS, [7])] []))"
proof -
  have r: "usb_recv (usb_script [(LIBUSB_SUCCESS, [1, 2, 3, 4, 5, 6]), (LIBUSB_SUCCESS, [7])] []) =
     Some (JAYLINK_OK, [1, 2, 3, 4, 5, 6], usb_script [(LIBUSB_SUCCESS, [7])] [])"
    by (simp add: usb_recv_def usb_script_def NUM_TIMEOUTS_def bulk_in_def CHUNK_SIZE_def
        usb_recv_done_def)
  have l: "read_length (fst (snd (transport_start_read idle_handle 5))) <
           length [1, 2, 3, 4, 5, 6 :: byte]"
    by (simp add: transport_start_read_def)
  from oversized_receive_fails [OF r l, of 5, THEN conjunct2] r l show ?thesis
    by (simp add: transport_start_read_def)
qed

subsection \<open>What the completing write sends\<close>

text \<open>
  Claim C3, as the spec states it, has the bytes beyond the alignment boundary sent as a
  second \<^verbatim>\<open>usb_send\<close> call whenever there are any. The second call is made only when
  the first returned \<^verbatim>\<open>JAYLINK_OK\<close>: with one byte staged and 2049 bytes in the
  completing write, a device that fails the first transfer leaves one \<^verbatim>\<open>usb_send\<close> call
  of 2048 bytes, and the last two bytes are never handed to \<^verbatim>\<open>usb_send\<close>.
\<close>

theorem second_send_skipped_after_error:
  "write_outcome
     (write_all (fst (snd (transport_start_write idle_handle 2050)))
        (usb_script [] [(LIBUSB_ERROR_NO_DEVICE, 0), (LIBUSB_SUCCESS, 2)])
        [[1], replicate 2049 2]) =
     Some ([JAYLINK_OK, JAYLINK_ERR], [1 # replicate 2047 2],
           [(LIBUSB_ERROR_NO_DEVICE, [])])"
  by (simp add: write_outcome_def transport_start_write_def idle_handle_def usb_script_def
      transport_write_def usb_send_def memcpy_at_def BUFFER_SIZE_def CHUNK_SIZE_def
      NUM_TIMEOUTS_def bulk_out_def Let_def)

text \<open>
  Claim C3, amended. A \<^verbatim>\<open>transport_write\<close> call whose length equals \<open>write_length\<close>
  leaves \<open>write_length\<close> and \<open>write_pos\<close> at zero. With nothing staged it makes one
  \<^verbatim>\<open>usb_send\<close> call with the caller's bytes. With bytes staged it makes a first
  \<^verbatim>\<open>usb_send\<close> call with the staged bytes followed by the caller's bytes up to the
  2048-byte boundary; if that call returned \<^verbatim>\<open>JAYLINK_OK\<close> and bytes remain beyond the
  boundary, they go out in a second call; otherwise the first call is the only one and its
  result is returned. Against a device that takes the bytes the call returns
  \<^verbatim>\<open>JAYLINK_OK\<close>.
\<close>

theorem completing_write_sends:
  assumes "length buf = write_length devh" and "write_pos devh \<le> BUFFER_SIZE"
    and "length (buffer devh) = BUFFER_SIZE"
  shows "(\<forall>ret devh' usb'. transport_write devh usb buf = Some (ret, devh', usb') \<longrightarrow>
    write_length devh' = 0 \<and> write_pos devh' = 0 \<and>
    (write_pos devh = 0 \<longrightarrow>
       usb_send usb buf = Some (ret, usb') \<and> send_calls usb' = send_calls usb @ [buf]) \<and>
    (write_pos devh \<noteq> 0 \<longrightarrow>
       (\<exists>ret1 usb1.
          usb_send usb (staged devh @ take (CHUNK_SIZE - write_pos devh) buf) = Some (ret1, usb1) \<and>
          (if ret1 = JAYLINK_OK \<and> CHUNK_SIZE - write_pos devh < length buf
           then usb_send usb1 (drop (CHUNK_SIZE - write_pos devh) buf) = Some (ret, usb') \<and>
                send_calls usb' = send_calls usb @
                  [staged devh @ take (CHUNK_SIZE - write_pos devh) buf,
                   drop (CHUNK_SIZE - write_pos devh) buf]
           else ret = ret1 \<and> usb' = usb1 \<and>
                send_calls usb' = send_calls usb @
                  [staged devh @ take (CHUNK_SIZE - write_pos devh) buf])))) \<and>
   (accepting (ep_out usb) (write_pos devh + length buf) \<longrightarrow>
      (\<exists>devh' usb'. transport_write devh usb buf = Some (JAYLINK_OK, devh', usb')))"
proof -
  have total: "\<exists>devh' usb'. transport_write devh usb buf = Some (JAYLINK_OK, devh', usb')"
    if "accepting (ep_out usb) (write_pos devh + length buf)"
  proof -
    from that assms(1) have a: "accepting (ep_out usb) (write_pos devh + write_length devh)"
      by simp
    from assms(1) have le: "length buf \<le> write_length devh"
      and fit: "length buf < write_length devh \<longrightarrow> write_pos devh + length buf \<le> BUFFER_SIZE"
      by simp_all
    from transport_write_total [OF assms(3,2) le fit a] show ?thesis by blast
  qed
  from transport_write_completing [OF assms] total show ?thesis
    by (intro conjI allI impI) blast+
qed


text \<open>
  The scenario of claim C3: after \<^verbatim>\<open>transport_start_write\<close> with length 3, writing
  \<open>[1, 2]\<close> is buffered with no transfer, and writing \<open>[3]\<close> makes one
  \<^verbatim>\<open>usb_send\<close> call with \<open>[1, 2, 3]\<close>, which a device that takes three bytes
  receives as one bulk transfer.
\<close>

theorem completing_write_sends_witness:
  "transport_write (fst (snd (transport_start_write idle_handle 3)))
     (usb_script [] [(LIBUSB_SUCCESS, 3), (LIBUSB_SUCCESS, 3), (LIBUSB_SUCCESS, 3)]) [1, 2] =
     Some (JAYLINK_OK,
           idle_handle\<lparr>buffer := 1 # 2 # replicate 2046 0, write_length := 1, write_pos := 2\<rparr>,
           usb_script [] [(LIBUSB_SUCCESS, 3), (LIBUSB_SUCCESS, 3), (LIBUSB_SUCCESS, 3)]) \<and>
   accepting [(LIBUSB_SUCCESS, 3), (LIBUSB_SUCCESS, 3), (LIBUSB_SUCCESS, 3)] (2 + length [3 :: byte]) \<and>
   transport_write
     (idle_handle\<lparr>buffer := 1 # 2 # replicate 2046 0, write_length := 1, write_pos := 2\<rparr>)
     (usb_script [] [(LIBUSB_SUCCESS, 3), (LIBUSB_SUCCESS, 3), (LIBUSB_SUCCESS, 3)]) [3] =
     Some (JAYLINK_OK,
           idle_handle\<lparr>buffer := 1 # 2 # 3 # replicate 2045 0, write_length := 0, write_pos := 0\<rparr>,
           \<lparr>ep_in = [], ep_out = [(LIBUSB_SUCCESS, 3), (LIBUSB_SUCCESS, 3)],
            send_calls = [[1, 2, 3]], wire_out = [(LIBUSB_SUCCESS, [1, 2, 3])]\<rparr>)"
proof -
  let ?d1 = "idle_handle\<lparr>buffer := 1 # 2 # replicate 2046 0, write_length := 1, write_pos := 2\<rparr>"
  let ?u = "usb_script [] [(LIBUSB_SUCCESS, 3), (LIBUSB_SUCCESS, 3), (LIBUSB_SUCCESS, 3)]"
  have first: "transport_write (fst (snd (transport_start_write idle_handle 3))) ?u [1, 2] =
               Some (JAYLINK_OK, ?d1, ?u)"
    by (simp add: transport_start_write_def transport_write_def idle_handle_def memcpy_at_def
        BUFFER_SIZE_def CHUNK_SIZE_def Let_def)
  have h1: "length [3 :: byte] = write_length ?d1" by simp
  have h2: "write_pos ?d1 \<le> BUFFER_SIZE" by (simp add: BUFFER_SIZE_def CHUNK_SIZE_def)
  have h3: "length (buffer ?d1) = BUFFER_SIZE" by (simp add: BUFFER_SIZE_def CHUNK_SIZE_def)
  have acc: "accepting (ep_out ?u) (write_pos ?d1 + length [3 :: byte])"
    by (simp add: accepting_def usb_script_def)
  note inst = completing_write_sends [OF h1 h2 h3, of ?u]
  from inst [THEN conjunct2] acc
  have "\<exists>devh' usb'. transport_write ?d1 ?u [3] = Some (JAYLINK_OK, devh', usb')"
    by blast
  moreover obtain devh' usb'
    where second: "transport_write ?d1 ?u [3] = Some (JAYLINK_OK, devh', usb')"
      and d': "devh' = idle_handle\<lparr>buffer := 1 # 2 # 3 # replicate 2045 0, write_length := 0,
                                    write_pos := 0\<rparr>"
      and u': "ep_in usb' = [] \<and> ep_out usb' = [(LIBUSB_SUCCESS, 3), (LIBUSB_SUCCESS, 3)] \<and>
               wire_out usb' = [(LIBUSB_SUCCESS, [1, 2, 3])]"
    by (simp add: transport_write_def idle_handle_def usb_script_def
      usb_send_def memcpy_at_def BUFFER_SIZE_def CHUNK_SIZE_def
      NUM_TIMEOUTS_def bulk_out_def Let_def sent_first_def usb_send_done_def)
  from inst [THEN conjunct1, rule_format, OF second]
  have "send_calls usb' = [[1, 2, 3]]"
    by (simp add: staged_def usb_script_def CHUNK_SIZE_def split: if_splits)
  with u' have "usb' = \<lparr>ep_in = [], ep_out = [(LIBUSB_SUCCESS, 3), (LIBUSB_SUCCESS, 3)],
            send_calls = [[1, 2, 3]], wire_out = [(LIBUSB_SUCCESS, [1, 2, 3])]\<rparr>"
    by (cases usb') simp
  with first second d' acc show ?thesis by (simp add: usb_script_def)
qed

subsection \<open>Writing preserves the bytes\<close>






subsection \<open>Reading is independent of the split\<close>

text \<open>
  Claim C2, as the spec states it, promises the first \<open>n\<close> bytes that the backend
  produces. When one receive brings more bytes than the operation still expects, the read
  fails instead: with 5 bytes declared and a transfer of 6 bytes, \<^verbatim>\<open>transport_read\<close>
  returns \<^verbatim>\<open>JAYLINK_ERR\<close> and delivers nothing.
\<close>

theorem read_fails_on_longer_receive:
  "read_outcome
     (read_all (fst (snd (transport_start_read idle_handle 5)))
        (usb_script [(LIBUSB_SUCCESS, [1, 2, 3, 4, 5, 6])] []) [5]) =
     Some ([JAYLINK_ERR], [[]]) \<and>
   take 5 (in_stream (usb_script [(LIBUSB_SUCCESS, [1, 2, 3, 4, 5, 6])] [])) = [1, 2, 3, 4, 5]"
  by (simp add: read_outcome_def transport_start_read_def idle_handle_def usb_script_def
      transport_read_def read_loop.simps usb_recv_def NUM_TIMEOUTS_def bulk_in_def
      usb_recv_done_def CHUNK_SIZE_def in_stream_def Let_def)

text \<open>
  Claim C2, amended. For every declared length \<open>n \<ge> 1\<close>, every device and every way
  of splitting \<open>n\<close> into a sequence of \<^verbatim>\<open>transport_read\<close> lengths: if every call
  returns \<^verbatim>\<open>JAYLINK_OK\<close>, each call delivers as many bytes as it asked for, and the
  bytes delivered, concatenated in call order, are the first \<open>n\<close> bytes of the stream of
  the IN endpoint, whatever the split. Every call does return \<^verbatim>\<open>JAYLINK_OK\<close> when the
  device delivers the \<open>n\<close> bytes in transfers that succeed, are not empty and do not run
  past the \<open>n\<close>-th byte.
\<close>

theorem read_is_split_invariant:
  assumes "n \<noteq> 0" and "length (buffer devh0) = BUFFER_SIZE" and "sum_list ns = n"
  shows "(\<forall>rets outs devh' usb'.
            read_all (fst (snd (transport_start_read devh0 n))) usb ns =
              Some (rets, outs, devh', usb') \<and> (\<forall>r \<in> set rets. r = JAYLINK_OK) \<longrightarrow>
            concat outs = take n (in_stream usb) \<and> map length outs = ns) \<and>
         (delivers (ep_in usb) n \<longrightarrow>
            (\<exists>outs devh' usb'.
               read_all (fst (snd (transport_start_read devh0 n))) usb ns =
                 Some (replicate (length ns) JAYLINK_OK, outs, devh', usb')))"
proof (intro conjI allI impI)
  fix rets outs devh' usb'
  assume "read_all (fst (snd (transport_start_read devh0 n))) usb ns =
            Some (rets, outs, devh', usb') \<and> (\<forall>r \<in> set rets. r = JAYLINK_OK)"
  then have run: "read_all (fst (snd (transport_start_read devh0 n))) usb ns =
            Some (rets, outs, devh', usb')" and ok: "\<forall>r \<in> set rets. r = JAYLINK_OK"
    by simp_all
  from read_all_first_bytes [OF assms run ok]
  show "concat outs = take n (in_stream usb)" and "map length outs = ns" by simp_all
next
  let ?d = "fst (snd (transport_start_read devh0 n))"
  assume dl: "delivers (ep_in usb) n"
  from assms(1,2) have ok: "read_ok ?d" and rl: "read_length ?d = n"
    and ba: "bytes_available ?d = 0"
    by (simp_all add: transport_start_read_def read_ok_def)
  from dl rl have dl': "delivers (ep_in usb) (read_length ?d)" by simp
  from assms(3) rl ba have "sum_list ns \<le> read_length ?d + bytes_available ?d" by simp
  from read_all_total [OF dl' ok this]
  show "\<exists>outs devh' usb'. read_all ?d usb ns =
          Some (replicate (length ns) JAYLINK_OK, outs, devh', usb')" .
qed

theorem read_is_split_invariant_witness:
  "(5::nat) \<noteq> 0 \<and> length (buffer idle_handle) = BUFFER_SIZE \<and>
   sum_list [2, 3] = (5::nat) \<and> sum_list [4, 1] = (5::nat) \<and>
   delivers (ep_in (usb_script [(LIBUSB_SUCCESS, [1, 2, 3]), (LIBUSB_SUCCESS, [4, 5])] [])) 5 \<and>
   read_outcome
     (read_all (fst (snd (transport_start_read idle_handle 5)))
        (usb_script [(LIBUSB_SUCCESS, [1, 2, 3]), (LIBUSB_SUCCESS, [4, 5])] []) [2, 3]) =
     Some ([JAYLINK_OK, JAYLINK_OK], [[1, 2], [3, 4, 5]]) \<and>
   read_outcome
     (read_all (fst (snd (transport_start_read idle_handle 5)))
        (usb_script [(LIBUSB_SUCCESS, [1, 2, 3]), (LIBUSB_SUCCESS, [4, 5])] []) [4, 1]) =
     Some ([JAYLINK_OK, JAYLINK_OK], [[1, 2, 3, 4], [5]]) \<and>
   take 5 (in_stream (usb_script [(LIBUSB_SUCCESS, [1, 2, 3]), (LIBUSB_SUCCESS, [4, 5])] [])) =
     [1, 2, 3, 4, 5]"
proof -
  let ?u = "usb_script [(LIBUSB_SUCCESS, [1, 2, 3]), (LIBUSB_SUCCESS, [4, 5])] []"
  let ?d = "fst (snd (transport_start_read idle_handle 5))"
  have len: "length (buffer idle_handle) = BUFFER_SIZE" by (simp add: idle_handle_def)
  have dl: "delivers (ep_in ?u) 5" by (simp add: usb_script_def CHUNK_SIZE_def)
  note ev = read_outcome_def transport_start_read_def idle_handle_def usb_script_def
    transport_read_def read_loop.simps usb_recv_def NUM_TIMEOUTS_def bulk_in_def
    usb_recv_done_def CHUNK_SIZE_def BUFFER_SIZE_def memcpy_at_def Let_def
  obtain d1 u1 where run1: "read_all ?d ?u [2, 3] =
      Some ([JAYLINK_OK, JAYLINK_OK], [[1, 2], [3, 4, 5]], d1, u1)"
    by (simp add: ev)
  obtain d2 u2 where run2: "read_all ?d ?u [4, 1] =
      Some ([JAYLINK_OK, JAYLINK_OK], [[1, 2, 3, 4], [5]], d2, u2)"
    by (simp add: ev)
  from read_is_split_invariant [of 5 idle_handle "[2, 3]" ?u, OF _ len, THEN conjunct1] run1
  have s1: "concat [[1, 2], [3, 4, 5 :: byte]] = take 5 (in_stream ?u)"
    by simp
  from read_is_split_invariant [of 5 idle_handle "[4, 1]" ?u, OF _ len, THEN conjunct2] dl
  have "\<exists>outs devh' usb'. read_all ?d ?u [4, 1] =
          Some (replicate (length [4, 1 :: nat]) JAYLINK_OK, outs, devh', usb')"
    by simp
  with s1 len dl run1 run2 show ?thesis
    by (simp add: read_outcome_def)
qed

end
